theory Spec2Isabelle
  imports Main "HOL-Library.Word"
begin

section \<open>Buffers and the four-byte length frame\<close>

text \<open>
  A Node \<open>Buffer\<close> is a list of octets. The strings of the program are JavaScript strings,
  sequences of 16-bit code units; \<open>ascii\<close> writes the program's string literals.
\<close>

type_synonym byte = "8 word"
type_synonym buffer = "byte list"
type_synonym jstring = "16 word list"

definition ascii :: "string \<Rightarrow> jstring" where
  "ascii s = map (\<lambda>c. of_nat (of_char c)) s"

text \<open>
  What the program can throw: the \<open>err\<close> a noble callback passes to \<open>reject\<close>, the
  \<open>RangeError\<close> of the Buffer accessors, and the two \<open>Error\<close>s of lines 402 and 411
  (the second carries \<open>jsonErr.message\<close>).
\<close>

datatype error = Rejected | RangeError | EmptyResponse | ParseFailure jstring

text \<open>
  \<open>buf.readUInt32BE(0)\<close>: the first four octets, most significant first. Node raises a
  \<open>RangeError\<close> on a buffer shorter than four octets.
\<close>

fun readUInt32BE :: "buffer \<Rightarrow> error + nat" where
  "readUInt32BE (b0 # b1 # b2 # b3 # _) =
     Inr (unat b0 * 2 ^ 24 + unat b1 * 2 ^ 16 + unat b2 * 2 ^ 8 + unat b3)"
| "readUInt32BE _ = Inl RangeError"

text \<open>
  \<open>Buffer.alloc(4)\<close> followed by \<open>writeUInt32BE(n, 0)\<close> (lines 275-276 and 326-327).
  Node raises a \<open>RangeError\<close> when the value does not fit 32 bits.
\<close>

definition writeUInt32BE :: "nat \<Rightarrow> error + buffer" where
  "writeUInt32BE n =
     (if n < 2 ^ 32
      then Inr [of_nat (n div 2 ^ 24), of_nat (n div 2 ^ 16), of_nat (n div 2 ^ 8), of_nat n]
      else Inl RangeError)"

text \<open>\<open>buf.slice(start, end)\<close> for \<open>0 \<le> start \<le> end\<close>; the end is clipped to the buffer.\<close>

definition slice :: "buffer \<Rightarrow> nat \<Rightarrow> nat \<Rightarrow> buffer" where
  "slice buf start stop = take (stop - start) (drop start buf)"

section \<open>JSON values and the platform's codecs\<close>

text \<open>
  The values \<open>JSON.parse\<close> yields and \<open>JSON.stringify\<close> accepts, with \<open>Undefined\<close> for an
  argument the caller left out. Numbers are restricted to integers (\<open>Date.now()\<close> is one).
\<close>

datatype jsval =
    Undefined
  | Null
  | Bool bool
  | Num int
  | Str jstring
  | Arr "jsval list"
  | Obj "(jstring \<times> jsval) list"

text \<open>JavaScript truthiness, as \<open>paramsObject || {}\<close> tests it.\<close>

fun truthy :: "jsval \<Rightarrow> bool" where
  "truthy Undefined = False"
| "truthy Null = False"
| "truthy (Bool b) = b"
| "truthy (Num n) = (n \<noteq> 0)"
| "truthy (Str s) = (s \<noteq> [])"
| "truthy (Arr _) = True"
| "truthy (Obj _) = True"

text \<open>
  The runtime functions the program calls but does not define are parameters of the model:
  \<open>JSON.stringify\<close>, \<open>JSON.parse\<close> (\<open>Inl\<close> carries the message of its \<open>SyntaxError\<close>),
  \<open>Buffer.from(s, 'utf8')\<close> and \<open>buf.toString('utf8')\<close>.
\<close>

record platform =
  JSON_stringify :: "jsval \<Rightarrow> jstring"
  JSON_parse :: "jstring \<Rightarrow> jstring + jsval"
  utf8_encode :: "jstring \<Rightarrow> buffer"
  utf8_decode :: "buffer \<Rightarrow> jstring"

text \<open>
  \<open>String.prototype.trim\<close> strips the code units ECMAScript calls WhiteSpace or
  LineTerminator from both ends.
\<close>

definition isWhiteSpace :: "16 word \<Rightarrow> bool" where
  "isWhiteSpace c =
     (c \<in> {0x0009, 0x000A, 0x000B, 0x000C, 0x000D, 0x0020, 0x00A0, 0x1680,
            0x2028, 0x2029, 0x202F, 0x205F, 0x3000, 0xFEFF}
      \<or> (0x2000 \<le> c \<and> c \<le> 0x200A))"

definition trim :: "jstring \<Rightarrow> jstring" where
  "trim s = rev (dropWhile isWhiteSpace (rev (dropWhile isWhiteSpace s)))"

text \<open>The request object literal of lines 262-268 and 318-323, its keys in source order.\<close>

definition requestObject :: "int \<Rightarrow> jstring \<Rightarrow> jsval \<Rightarrow> jsval" where
  "requestObject t method paramsObject =
     Obj [(ascii ''id'', Num t),
          (ascii ''src'', Str (ascii ''user_1'')),
          (ascii ''method'', Str method),
          (ascii ''params'', (if truthy paramsObject then paramsObject else Obj []))]"

section \<open>The link, the clock and the notification handler\<close>

text \<open>
  The three characteristics of the Shelly service, and the operations the program issues.
  \<open>Write c d withoutResponse\<close> is noble's \<open>c.write(d, withoutResponse, cb)\<close>.
  Of the console output only the two \<open>console.error\<close> lines of the decoder are kept; the
  \<open>console.log\<close> lines are progress messages and are left out.
\<close>

datatype chan = DataCh | TxCtl | RxCtl

datatype io =
    Read chan
  | Write chan buffer bool
  | Sleep nat
  | Subscribe chan
  | Unsubscribe chan
  | ConsoleError jstring

text \<open>
  What a noble callback reports: an error, or success with the data read (which the
  program allows to be absent: \<open>chunk ? chunk.length : 0\<close>).
\<close>

datatype reply = Failed | Resolved "buffer option"

text \<open>
  The peer and the BLE stack are a script. Each read, write or subscribe awaits the next
  \<open>step\<close>: the notifications of the length characteristic that arrive while the call is
  pending, the milliseconds it takes, and its outcome. Each \<open>sleep\<close> takes the next
  \<open>nap\<close>: the notifications arriving meanwhile and how late the timer fires. A call issued
  when the script has no step left never completes.
\<close>

record step =
  notified :: "buffer option list"
  took :: nat
  outcome :: reply

record nap =
  woken :: "buffer option list"
  lag :: nat

text \<open>
  The state an exchange threads through its awaits: the clock (\<open>Date.now()\<close>), the rest of
  the script, whether the notification handler is attached, the variable \<open>expectedLength\<close>
  that the handler shares with the main flow, and the operations issued so far, each with
  the time of its issue.
\<close>

record world =
  now :: int
  replies :: "step list"
  naps :: "nap list"
  listening :: bool
  expectedLength :: nat
  trace :: "(int \<times> io) list"

datatype 'a result = Pending | Thrown error world | Done 'a world

definition andThen :: "'a result \<Rightarrow> ('a \<Rightarrow> world \<Rightarrow> 'b result) \<Rightarrow> 'b result" where
  "andThen r k = (case r of Pending \<Rightarrow> Pending | Thrown e w \<Rightarrow> Thrown e w | Done x w \<Rightarrow> k x w)"

text \<open>The handler passed to \<open>subscribeNotifications\<close> (lines 257-260).\<close>

definition onRxNotify :: "buffer option \<Rightarrow> nat \<Rightarrow> nat" where
  "onRxNotify buf el =
     (case buf of
        None \<Rightarrow> el
      | Some b \<Rightarrow>
          if length b < 4 then el
          else (case readUInt32BE b of Inr n \<Rightarrow> n | Inl _ \<Rightarrow> el))"

definition deliver :: "buffer option list \<Rightarrow> world \<Rightarrow> world" where
  "deliver bufs w =
     (if listening w then w\<lparr>expectedLength := fold onRxNotify bufs (expectedLength w)\<rparr> else w)"

definition settle :: "io \<Rightarrow> world \<Rightarrow> (reply \<times> world) option" where
  "settle call w =
     (case replies w of
        [] \<Rightarrow> None
      | s # ss \<Rightarrow>
          Some (outcome s,
                deliver (notified s)
                  (w\<lparr>now := now w + int (took s), replies := ss,
                     trace := trace w @ [(now w, call)]\<rparr>)))"

definition readCharacteristic :: "chan \<Rightarrow> world \<Rightarrow> (reply \<times> world) option" where
  "readCharacteristic c w = settle (Read c) w"

definition characteristic_write :: "chan \<Rightarrow> buffer \<Rightarrow> bool \<Rightarrow> world \<Rightarrow> (reply \<times> world) option" where
  "characteristic_write c d withoutResponse w = settle (Write c d withoutResponse) w"

text \<open>Lines 146-155: \<open>characteristic.write(data, false, cb)\<close>.\<close>

definition writeWithResponse :: "chan \<Rightarrow> buffer \<Rightarrow> world \<Rightarrow> (reply \<times> world) option" where
  "writeWithResponse c d w = characteristic_write c d False w"

definition sleep :: "nat \<Rightarrow> world \<Rightarrow> world" where
  "sleep ms w =
     (case naps w of
        [] \<Rightarrow> w\<lparr>now := now w + int ms, trace := trace w @ [(now w, Sleep ms)]\<rparr>
      | n # ns \<Rightarrow>
          deliver (woken n)
            (w\<lparr>now := now w + int ms + int (lag n), naps := ns,
               trace := trace w @ [(now w, Sleep ms)]\<rparr>))"

text \<open>Lines 166-178; the function it resolves to is \<open>unsubscribeRxNotify\<close>.\<close>

definition subscribeNotifications :: "world \<Rightarrow> unit result" where
  "subscribeNotifications w =
     (case settle (Subscribe RxCtl) w of
        None \<Rightarrow> Pending
      | Some (Failed, w1) \<Rightarrow> Thrown Rejected w1
      | Some (Resolved _, w1) \<Rightarrow> Done () (w1\<lparr>listening := True\<rparr>))"

definition unsubscribeRxNotify :: "world \<Rightarrow> world" where
  "unsubscribeRxNotify w =
     w\<lparr>listening := False, trace := trace w @ [(now w, Unsubscribe RxCtl)]\<rparr>"

text \<open>Observers of the trace: the writes, the reads and the sleeps, in the order issued.\<close>

definition writeOf :: "int \<times> io \<Rightarrow> (chan \<times> buffer \<times> bool) list" where
  "writeOf e = (case snd e of Write c d withoutResponse \<Rightarrow> [(c, d, withoutResponse)] | _ \<Rightarrow> [])"

definition writes :: "(int \<times> io) list \<Rightarrow> (chan \<times> buffer \<times> bool) list" where
  "writes tr = concat (map writeOf tr)"

definition readOf :: "int \<times> io \<Rightarrow> (int \<times> chan) list" where
  "readOf e = (case snd e of Read c \<Rightarrow> [(fst e, c)] | _ \<Rightarrow> [])"

definition reads :: "(int \<times> io) list \<Rightarrow> (int \<times> chan) list" where
  "reads tr = concat (map readOf tr)"

definition sleepOf :: "int \<times> io \<Rightarrow> nat list" where
  "sleepOf e = (case snd e of Sleep ms \<Rightarrow> [ms] | _ \<Rightarrow> [])"

definition sleeps :: "(int \<times> io) list \<Rightarrow> nat list" where
  "sleeps tr = concat (map sleepOf tr)"

text \<open>What an operation added to the trace: the part of \<open>w'\<close>'s trace after \<open>w\<close>'s.\<close>

definition since :: "world \<Rightarrow> world \<Rightarrow> (int \<times> io) list" where
  "since w w' = drop (length (trace w)) (trace w')"

section \<open>flushChannels (lines 180-198)\<close>

function drain :: "nat \<Rightarrow> int \<Rightarrow> nat \<Rightarrow> world \<Rightarrow> unit result" where
  "drain len deadline drained w =
     (if drained < len \<and> now w < deadline then
        (case readCharacteristic DataCh w of
           None \<Rightarrow> Pending
         | Some (Failed, w1) \<Rightarrow> Thrown Rejected w1
         | Some (Resolved chunk, w1) \<Rightarrow>
             (let cLen = (case chunk of None \<Rightarrow> 0 | Some c \<Rightarrow> length c) in
              if cLen = 0 then Done () w1
              else drain len deadline (drained + cLen) w1))
      else Done () w)"
  by pat_completeness auto
termination
  by (relation "measure (\<lambda>(len, deadline, drained, w). length (replies w))")
     (auto simp: readCharacteristic_def settle_def deliver_def split: list.splits if_splits)

text \<open>The body of the \<open>try\<close> block.\<close>

definition flushBody :: "world \<Rightarrow> unit result" where
  "flushBody w =
     (case readCharacteristic RxCtl w of
        None \<Rightarrow> Pending
      | Some (Failed, w1) \<Rightarrow> Thrown Rejected w1
      | Some (Resolved None, w1) \<Rightarrow> Done () w1
      | Some (Resolved (Some lenBuf), w1) \<Rightarrow>
          if length lenBuf \<ge> 4 then
            (case readUInt32BE lenBuf of
               Inl e \<Rightarrow> Thrown e w1
             | Inr len \<Rightarrow>
                 if len > 0 then drain len (now w1 + 1000) 0 w1 else Done () w1)
          else Done () w1)"

text \<open>\<open>try { ... } catch (_) {}\<close>: whatever the body throws is dropped.\<close>

definition flushChannels :: "world \<Rightarrow> unit result" where
  "flushChannels w =
     (case flushBody w of
        Pending \<Rightarrow> Pending
      | Thrown _ w1 \<Rightarrow> Done () w1
      | Done _ w1 \<Rightarrow> Done () w1)"

section \<open>Transmission (lines 262-291 and 314-338)\<close>

definition MTU_CHUNK :: nat where
  "MTU_CHUNK = 20"

text \<open>The chunk loop of the first attempt (lines 286-291).\<close>

function writeChunks :: "nat \<Rightarrow> buffer \<Rightarrow> nat \<Rightarrow> world \<Rightarrow> unit result" where
  "writeChunks mtu requestBytes offset w =
     (if offset < length requestBytes then
        (case writeWithResponse DataCh (slice requestBytes offset (offset + mtu)) w of
           None \<Rightarrow> Pending
         | Some (Failed, w1) \<Rightarrow> Thrown Rejected w1
         | Some (Resolved _, w1) \<Rightarrow>
             writeChunks mtu requestBytes (offset + mtu) (sleep 15 w1))
      else Done () w)"
  by pat_completeness auto
termination
  by (relation "measure (\<lambda>(mtu, requestBytes, offset, w). length (replies w))")
     (auto simp: writeWithResponse_def characteristic_write_def settle_def deliver_def sleep_def
           split: list.splits if_splits)

text \<open>
  The chunk loop of the second attempt (lines 334-338), which calls
  \<open>dataChar.write(chunk, false, cb)\<close> itself.
\<close>

function retryWriteChunks :: "nat \<Rightarrow> buffer \<Rightarrow> nat \<Rightarrow> world \<Rightarrow> unit result" where
  "retryWriteChunks mtu reqBytes off w =
     (if off < length reqBytes then
        (case characteristic_write DataCh (slice reqBytes off (off + mtu)) False w of
           None \<Rightarrow> Pending
         | Some (Failed, w1) \<Rightarrow> Thrown Rejected w1
         | Some (Resolved _, w1) \<Rightarrow>
             retryWriteChunks mtu reqBytes (off + mtu) (sleep 25 w1))
      else Done () w)"
  by pat_completeness auto
termination
  by (relation "measure (\<lambda>(mtu, reqBytes, off, w). length (replies w))")
     (auto simp: characteristic_write_def settle_def deliver_def sleep_def split: list.splits if_splits)

text \<open>
  Lines 275-291: write the length of the request to TX_CTL, wait a second, write the
  request to the data characteristic in chunks.
\<close>

definition transmit :: "buffer \<Rightarrow> world \<Rightarrow> unit result" where
  "transmit requestBytes w =
     (case writeUInt32BE (length requestBytes) of
        Inl e \<Rightarrow> Thrown e w
      | Inr lenBuf \<Rightarrow>
          (case writeWithResponse TxCtl lenBuf w of
             None \<Rightarrow> Pending
           | Some (Failed, w1) \<Rightarrow> Thrown Rejected w1
           | Some (Resolved _, w1) \<Rightarrow>
               writeChunks MTU_CHUNK requestBytes 0 (sleep 1000 w1)))"

text \<open>Lines 326-338: the same for the second attempt, with its own delays.\<close>

definition retransmit :: "buffer \<Rightarrow> world \<Rightarrow> unit result" where
  "retransmit reqBytes w =
     (case writeUInt32BE (length reqBytes) of
        Inl e \<Rightarrow> Thrown e w
      | Inr lenBE \<Rightarrow>
          (case writeWithResponse TxCtl lenBE w of
             None \<Rightarrow> Pending
           | Some (Failed, w1) \<Rightarrow> Thrown Rejected w1
           | Some (Resolved _, w1) \<Rightarrow>
               retryWriteChunks MTU_CHUNK reqBytes 0 (sleep 500 w1)))"

text \<open>
  Lines 262-270 and 318-325: the request object is built with \<open>Date.now()\<close> as its id,
  serialised and encoded.
\<close>

definition requestBytes :: "platform \<Rightarrow> int \<Rightarrow> jstring \<Rightarrow> jsval \<Rightarrow> buffer" where
  "requestBytes rt t method paramsObject =
     (let requestObj = requestObject t method paramsObject;
          requestJson = JSON_stringify rt requestObj
      in utf8_encode rt requestJson)"

definition sendRequest :: "platform \<Rightarrow> jstring \<Rightarrow> jsval \<Rightarrow> world \<Rightarrow> unit result" where
  "sendRequest rt method paramsObject w =
     transmit (requestBytes rt (now w) method paramsObject) w"

definition resendRequest :: "platform \<Rightarrow> jstring \<Rightarrow> jsval \<Rightarrow> world \<Rightarrow> unit result" where
  "resendRequest rt method paramsObject w =
     retransmit (requestBytes rt (now w) method paramsObject) w"

section \<open>Length discovery by polling (lines 295-307 and 340-349)\<close>

text \<open>
  The \<open>for\<close> loop of the first attempt. A rejected read, and anything thrown inside the
  \<open>try\<close>, is logged and the loop goes on to its \<open>sleep(250)\<close>.
\<close>

function pollLength :: "nat \<Rightarrow> world \<Rightarrow> unit result" where
  "pollLength i w =
     (if i \<le> 30 \<and> expectedLength w = 0 then
        (case readCharacteristic RxCtl w of
           None \<Rightarrow> Pending
         | Some (Failed, w1) \<Rightarrow> pollLength (i + 1) (sleep 250 w1)
         | Some (Resolved None, w1) \<Rightarrow> pollLength (i + 1) (sleep 250 w1)
         | Some (Resolved (Some lenBuf), w1) \<Rightarrow>
             if length lenBuf \<ge> 4 then
               (case readUInt32BE lenBuf of
                  Inl _ \<Rightarrow> pollLength (i + 1) (sleep 250 w1)
                | Inr n \<Rightarrow>
                    (let w2 = w1\<lparr>expectedLength := n\<rparr> in
                     if expectedLength w2 > 0 then Done () w2
                     else pollLength (i + 1) (sleep 250 w2)))
             else pollLength (i + 1) (sleep 250 w1))
      else Done () w)"
  by pat_completeness auto
termination
  by (relation "measure (\<lambda>(i, w). length (replies w))")
     (auto simp: readCharacteristic_def settle_def deliver_def sleep_def
           split: list.splits if_splits)

text \<open>The \<open>for\<close> loop of the second attempt: twenty polls, no \<open>break\<close>, \<open>sleep(100)\<close>.\<close>

function retryPollLength :: "nat \<Rightarrow> world \<Rightarrow> unit result" where
  "retryPollLength i w =
     (if i \<le> 20 \<and> expectedLength w = 0 then
        (case readCharacteristic RxCtl w of
           None \<Rightarrow> Pending
         | Some (Failed, w1) \<Rightarrow> retryPollLength (i + 1) (sleep 100 w1)
         | Some (Resolved None, w1) \<Rightarrow> retryPollLength (i + 1) (sleep 100 w1)
         | Some (Resolved (Some lb), w1) \<Rightarrow>
             if length lb \<ge> 4 then
               (case readUInt32BE lb of
                  Inl _ \<Rightarrow> retryPollLength (i + 1) (sleep 100 w1)
                | Inr n \<Rightarrow> retryPollLength (i + 1) (sleep 100 (w1\<lparr>expectedLength := n\<rparr>)))
             else retryPollLength (i + 1) (sleep 100 w1))
      else Done () w)"
  by pat_completeness auto
termination
  by (relation "measure (\<lambda>(i, w). length (replies w))")
     (auto simp: readCharacteristic_def settle_def deliver_def sleep_def
           split: list.splits if_splits)

section \<open>Reading the response (lines 353-392)\<close>

definition maxDurationMs :: "bool \<Rightarrow> int" where
  "maxDurationMs bestEffort = (if bestEffort then 5000 else 20000)"

text \<open>
  The \<open>while\<close> loop. \<open>bestEffort\<close> and \<open>startedData\<close> are constants of the block;
  \<open>received\<close> and \<open>consecutiveEmpty\<close> are its variables (\<open>attempts\<close> only numbers the log
  lines and is left out). \<open>expectedLength\<close> is read from the shared state at every test.
\<close>

function readData :: "bool \<Rightarrow> int \<Rightarrow> buffer \<Rightarrow> nat \<Rightarrow> world \<Rightarrow> buffer result" where
  "readData bestEffort startedData received consecutiveEmpty w =
     (if (\<not> bestEffort \<and> length received < expectedLength w) \<or>
         (bestEffort \<and> now w - startedData < maxDurationMs bestEffort) then
        if now w - startedData > maxDurationMs bestEffort then Done received w
        else
          (case readCharacteristic DataCh w of
             None \<Rightarrow> Pending
           | Some (Failed, w1) \<Rightarrow>
               readData bestEffort startedData received consecutiveEmpty (sleep 250 w1)
           | Some (Resolved chunk, w1) \<Rightarrow>
               (let chunkLen = (case chunk of None \<Rightarrow> 0 | Some c \<Rightarrow> length c) in
                if chunkLen > 0 then
                  readData bestEffort startedData
                    (received @ (case chunk of None \<Rightarrow> [] | Some c \<Rightarrow> c)) 0 w1
                else
                  readData bestEffort startedData received (consecutiveEmpty + 1)
                    (sleep (min (200 + (consecutiveEmpty + 1) * 50) 500) w1)))
      else Done received w)"
  by pat_completeness auto
termination
  by (relation "measure (\<lambda>(bestEffort, startedData, received, consecutiveEmpty, w).
                           length (replies w))")
     (auto simp: readCharacteristic_def settle_def deliver_def sleep_def
           split: list.splits if_splits)

section \<open>Decoding (lines 400-413)\<close>

definition decodeResponse :: "platform \<Rightarrow> buffer \<Rightarrow> world \<Rightarrow> jsval result" where
  "decodeResponse rt received w =
     (let jsonText = utf8_decode rt received in
      if trim jsonText = [] then Thrown EmptyResponse w
      else
        (case JSON_parse rt jsonText of
           Inl message \<Rightarrow>
             Thrown (ParseFailure message)
               (w\<lparr>trace := trace w @
                    [(now w, ConsoleError (ascii ''JSON parse error. Full response text:'')),
                     (now w, ConsoleError (JSON_stringify rt (Str jsonText)))]\<rparr>)
         | Inr parsed \<Rightarrow> Done parsed w))"

section \<open>The exchange (lines 251-413 of sendRpcAndReceive)\<close>

text \<open>
  The exchange once the peripheral is connected and its three characteristics are found
  (lines 201-249), cut at the comments of the source. First (lines 251-307): flush,
  subscribe with \<open>expectedLength = 0\<close>, send the request, poll for the length.
\<close>

definition firstAttempt :: "platform \<Rightarrow> jstring \<Rightarrow> jsval \<Rightarrow> world \<Rightarrow> unit result" where
  "firstAttempt rt method paramsObject w0 =
     andThen (flushChannels w0) (\<lambda>_ w1.
     andThen (subscribeNotifications (w1\<lparr>expectedLength := 0\<rparr>)) (\<lambda>_ w2.
     andThen (sendRequest rt method paramsObject w2) (\<lambda>_ w3.
     pollLength 1 w3)))"

text \<open>
  Lines 309-350: \<open>if (expectedLength === 0 && received.length === 0)\<close>, reset both
  variables, send the request again and poll again.
\<close>

definition retryOnce :: "platform \<Rightarrow> jstring \<Rightarrow> jsval \<Rightarrow> buffer \<Rightarrow> world \<Rightarrow> unit result" where
  "retryOnce rt method paramsObject received w4 =
     (if expectedLength w4 = 0 \<and> length received = 0 then
        andThen (resendRequest rt method paramsObject (w4\<lparr>expectedLength := 0\<rparr>))
          (\<lambda>_ w. retryPollLength 1 w)
      else Done () w4)"

text \<open>Lines 353-392: the mode is chosen, the clock is read, the loop runs.\<close>

definition receive :: "buffer \<Rightarrow> world \<Rightarrow> buffer result" where
  "receive received w5 =
     (let bestEffort = (expectedLength w5 = 0);
          startedData = now w5
      in readData bestEffort startedData received 0 w5)"

text \<open>
  The whole. \<open>received\<close> is \<open>Buffer.alloc(0)\<close> until the read loop; the retry block
  assigns it \<open>Buffer.alloc(0)\<close> again. The \<open>finally\<close> block disconnects after every
  outcome; connecting and disconnecting are outside the trace.
\<close>

definition sendRpcAndReceive :: "platform \<Rightarrow> jstring \<Rightarrow> jsval \<Rightarrow> world \<Rightarrow> jsval result" where
  "sendRpcAndReceive rt method paramsObject w0 =
     (let received = ([] :: buffer) in
      andThen (firstAttempt rt method paramsObject w0) (\<lambda>_ w4.
      andThen (retryOnce rt method paramsObject received w4) (\<lambda>_ w5.
      andThen (receive received w5) (\<lambda>received w6.
      decodeResponse rt received (unsubscribeRxNotify w6)))))"

section \<open>Vocabulary of the statements\<close>

text \<open>
  The buffers written to one characteristic, in order; the world a settled result ends in;
  and the text \<open>trim\<close> reduces to nothing.
\<close>

definition written :: "chan \<Rightarrow> (int \<times> io) list \<Rightarrow> buffer list" where
  "written c tr = map (\<lambda>x. fst (snd x)) (filter (\<lambda>x. fst x = c) (writes tr))"

definition finalWorld :: "'a result \<Rightarrow> world option" where
  "finalWorld r = (case r of Pending \<Rightarrow> None | Thrown _ w \<Rightarrow> Some w | Done _ w \<Rightarrow> Some w)"

definition blank :: "jstring \<Rightarrow> bool" where
  "blank s = list_all isWhiteSpace s"

text \<open>
  The test the read loop makes before each read: the \<open>while\<close> condition holds and the
  \<open>break\<close> of line 368 is not taken.
\<close>

definition wantsMore :: "bool \<Rightarrow> int \<Rightarrow> buffer \<Rightarrow> world \<Rightarrow> bool" where
  "wantsMore bestEffort startedData received w =
     (((\<not> bestEffort \<and> length received < expectedLength w) \<or>
       (bestEffort \<and> now w - startedData < maxDurationMs bestEffort))
      \<and> \<not> now w - startedData > maxDurationMs bestEffort)"

text \<open>
  A world made deaf: the handler detached and \<open>expectedLength\<close> set to \<open>n\<close>; and the same
  change made to the world a result ends in.
\<close>

definition deaf :: "nat \<Rightarrow> world \<Rightarrow> world" where
  "deaf n w = w\<lparr>listening := False, expectedLength := n\<rparr>"

definition mapWorld :: "(world \<Rightarrow> world) \<Rightarrow> 'a result \<Rightarrow> 'a result" where
  "mapWorld f r = (case r of Pending \<Rightarrow> Pending | Thrown e w \<Rightarrow> Thrown e (f w) | Done x w \<Rightarrow> Done x (f w))"

text \<open>
  A step stalls the read loop when it is an error or carries no data; every iteration that
  consumes a step moves the clock by at least the step's \<open>pace\<close>. A read is in budget
  when it is a read of the data characteristic issued no later than \<open>maxDurationMs\<close> after
  \<open>startedData\<close>, and strictly earlier in best-effort mode.
\<close>

definition stall :: "step \<Rightarrow> bool" where
  "stall s = (case outcome s of Failed \<Rightarrow> True | Resolved None \<Rightarrow> True | Resolved (Some c) \<Rightarrow> c = [])"

definition pace :: "step \<Rightarrow> nat" where
  "pace s = took s + (if stall s then 250 else 0)"

definition inBudget :: "bool \<Rightarrow> int \<Rightarrow> (int \<times> chan) \<Rightarrow> bool" where
  "inBudget be st x = (snd x = DataCh \<and> fst x - st \<le> maxDurationMs be \<and> (be \<longrightarrow> fst x - st < maxDurationMs be))"

text \<open>
  The back-off policy as the specification words it, over the outcomes of successive
  reads, starting after \<open>k\<close> consecutive empty reads: an empty read is followed by a delay
  of 200 ms plus 50 ms per consecutive empty read, capped at 500 ms; data resets the
  count; a failed read is followed by 250 ms and leaves the count alone.
\<close>

fun backoffPolicy :: "nat \<Rightarrow> reply list \<Rightarrow> nat list" where
  "backoffPolicy k [] = []"
| "backoffPolicy k (Failed # rs) = 250 # backoffPolicy k rs"
| "backoffPolicy k (Resolved None # rs) = min (200 + 50 * (k + 1)) 500 # backoffPolicy (k + 1) rs"
| "backoffPolicy k (Resolved (Some c) # rs) =
     (if c = [] then min (200 + 50 * (k + 1)) 500 # backoffPolicy (k + 1) rs
      else backoffPolicy 0 rs)"

text \<open>
  For the flush: the number of octets a step delivers, the length of the pending frame a
  reply to the read of RX_CTL announces (0 when it announces none), and the trace of reads
  of the data characteristic issued at given times.
\<close>

definition got :: "step \<Rightarrow> nat" where
  "got s = (case outcome s of Resolved (Some c) \<Rightarrow> length c | _ \<Rightarrow> 0)"

definition frameOf :: "reply \<Rightarrow> nat" where
  "frameOf r =
     (case r of
        Resolved (Some b) \<Rightarrow>
          if 4 \<le> length b then (case readUInt32BE b of Inr n \<Rightarrow> n | Inl _ \<Rightarrow> 0) else 0
      | _ \<Rightarrow> 0)"

definition dataReads :: "int list \<Rightarrow> (int \<times> io) list" where
  "dataReads ts = map (\<lambda>t. (t, Read DataCh)) ts"

text \<open>
  What a drain of \<open>len\<close> octets with deadline \<open>dl\<close>, begun with \<open>drained\<close> octets counted,
  looks like when it has consumed the steps \<open>used\<close> through reads issued at the times
  \<open>ts\<close> and ended at time \<open>finish\<close>: one read per step, each issued before the deadline
  and while the count was below \<open>len\<close>, each but the last delivering data; and it ended
  because the last read was empty or failed, or the count was reached, or the deadline
  had passed.
\<close>

definition drainedBy :: "nat \<Rightarrow> int \<Rightarrow> nat \<Rightarrow> step list \<Rightarrow> int list \<Rightarrow> int \<Rightarrow> bool" where
  "drainedBy len dl drained used ts finish =
     (length ts = length used
      \<and> (\<forall>t\<in>set ts. t < dl)
      \<and> (\<forall>s\<in>set (butlast used). 0 < got s)
      \<and> (used \<noteq> [] \<longrightarrow> drained + sum_list (map got (butlast used)) < len)
      \<and> ((used \<noteq> [] \<and> got (last used) = 0)
           \<or> len \<le> drained + sum_list (map got used) \<or> dl \<le> finish))"

text \<open>A payload whose length fits the four-octet frame.\<close>

definition fits :: "buffer \<Rightarrow> bool" where
  "fits bs = (length bs < 2 ^ 32)"

text \<open>
  Predicates the statements below use. A read of the length characteristic is short when
  it carries no buffer or fewer than four octets; a reply gives no signal when it is an
  error or short; a world is silent when nothing in its script ever signals a length.
\<close>

definition shortRead :: "buffer option \<Rightarrow> bool" where
  "shortRead r = (case r of None \<Rightarrow> True | Some b \<Rightarrow> length b < 4)"

definition noSignal :: "reply \<Rightarrow> bool" where
  "noSignal r = (case r of Failed \<Rightarrow> True | Resolved x \<Rightarrow> shortRead x)"

definition silent :: "world \<Rightarrow> bool" where
  "silent w = ((\<forall>s\<in>set (replies w). notified s = [] \<and> noSignal (outcome s))
              \<and> (\<forall>n\<in>set (naps w). woken n = []))"

text \<open>
  How late the read loop can end. A timer fires no later than the worst lag the script
  holds; the last turn of the loop takes its read and, when that read stalled, a back-off
  sleep of at most 500 ms.
\<close>

primrec worstLag :: "nap list \<Rightarrow> nat" where
  "worstLag [] = 0"
| "worstLag (n # ns) = max (lag n) (worstLag ns)"

definition lastTurn :: "step \<Rightarrow> nap list \<Rightarrow> int" where
  "lastTurn s ns = int (took s) + (if stall s then 500 + int (worstLag ns) else 0)"

text \<open>
  What a settled run did on the link since \<open>w0\<close>: its writes, its reads and its sleeps.
  The value of \<open>expectedLength\<close> a settled run ends with, and the number of length frames
  it wrote to TX_CTL since \<open>w0\<close>. And whether one text occurs in another.
\<close>

definition traffic ::
  "world \<Rightarrow> 'a result \<Rightarrow> ((chan \<times> buffer \<times> bool) list \<times> (int \<times> chan) list \<times> nat list) option" where
  "traffic w0 r =
     map_option (\<lambda>w. (writes (since w0 w), reads (since w0 w), sleeps (since w0 w))) (finalWorld r)"

definition lengthAfter :: "'a result \<Rightarrow> nat option" where
  "lengthAfter r = map_option expectedLength (finalWorld r)"

definition framesSent :: "world \<Rightarrow> 'a result \<Rightarrow> nat option" where
  "framesSent w0 r = map_option (\<lambda>w. length (written TxCtl (since w0 w))) (finalWorld r)"

fun occursIn :: "jstring \<Rightarrow> jstring \<Rightarrow> bool" where
  "occursIn s [] = (s = [])"
| "occursIn s (c # cs) = (take (length s) (c # cs) = s \<or> occursIn s cs)"

text \<open>The loop equations unfold on demand only.\<close>

declare drain.simps [simp del]
declare writeChunks.simps [simp del]
declare retryWriteChunks.simps [simp del]
declare pollLength.simps [simp del]
declare retryPollLength.simps [simp del]
declare readData.simps [simp del]

section \<open>Sample scripts\<close>

text \<open>
  Small closed inputs on which the theorems below are instantiated: a step that succeeds
  after a millisecond with no data, steps that return given data, and a world at time 0
  running a given script.
\<close>

definition quiet :: step where
  "quiet = \<lparr>notified = [], took = 1, outcome = Resolved None\<rparr>"

definition yields :: "buffer \<Rightarrow> step" where
  "yields b = \<lparr>notified = [], took = 1, outcome = Resolved (Some b)\<rparr>"

definition fails :: step where
  "fails = \<lparr>notified = [], took = 1, outcome = Failed\<rparr>"

definition startAt :: "step list \<Rightarrow> world" where
  "startAt ss =
     \<lparr>now = 0, replies = ss, naps = [], listening = False, expectedLength = 0, trace = []\<rparr>"

text \<open>The worlds that sending the three octets 1, 2, 3 over two quiet steps ends in.\<close>

definition sent :: "nat \<Rightarrow> nat \<Rightarrow> world" where
  "sent wait pause =
     \<lparr>now = 2 + int wait + int pause, replies = [], naps = [], listening = False,
      expectedLength = 0,
      trace = [(0, Write TxCtl [0, 0, 0, 3] False), (1, Sleep wait),
               (1 + int wait, Write DataCh [1, 2, 3] False), (2 + int wait, Sleep pause)]\<rparr>"



text \<open>A world whose handler is attached and whose \<open>expectedLength\<close> is already \<open>n\<close>.\<close>

definition expecting :: "nat \<Rightarrow> world" where
  "expecting n =
     \<lparr>now = 0, replies = [], naps = [], listening = True, expectedLength = n, trace = []\<rparr>"

text \<open>The world after one read of RX_CTL answered by the two octets 1, 2, and after the
  sleep that follows it in the polling loop.\<close>

definition polledOnce :: world where
  "polledOnce =
     \<lparr>now = 1, replies = [], naps = [], listening = False, expectedLength = 0,
      trace = [(0, Read RxCtl)]\<rparr>"

definition polledAndSlept :: "nat \<Rightarrow> world" where
  "polledAndSlept ms =
     \<lparr>now = 1 + int ms, replies = [], naps = [], listening = False, expectedLength = 0,
      trace = [(0, Read RxCtl), (1, Sleep ms)]\<rparr>"

text \<open>
  A stand-in for the runtime, right on the texts the samples use: every object is
  serialised as \<open>{}\<close>, a string is quoted, only the text \<open>{}\<close> parses, and the UTF-8
  codecs copy ASCII.
\<close>

definition samplePlatform :: platform where
  "samplePlatform =
     \<lparr>JSON_stringify = (\<lambda>v. case v of Str s \<Rightarrow> [0x22] @ s @ [0x22] | _ \<Rightarrow> ascii ''{}''),
      JSON_parse = (\<lambda>s. if s = ascii ''{}'' then Inr (Obj []) else Inl (ascii ''Unexpected token'')),
      utf8_encode = map ucast,
      utf8_decode = map ucast\<rparr>"

text \<open>
  An exchange whose peer announces two octets and sends \<open>ab\<close>: the script, the world
  when the read loop has ended and the handler is detached, and the world at the end.
\<close>

definition garbled :: "step list" where
  "garbled = [quiet, quiet, quiet, quiet, yields [0, 0, 0, 2], yields [0x61, 0x62]]"

definition garbledRead :: world where
  "garbledRead =
     \<lparr>now = 1021, replies = [], naps = [], listening = False, expectedLength = 2,
      trace = [(0, Read RxCtl), (1, Subscribe RxCtl), (2, Write TxCtl [0, 0, 0, 2] False),
               (3, Sleep 1000), (1003, Write DataCh [0x7B, 0x7D] False), (1004, Sleep 15),
               (1019, Read RxCtl), (1020, Read DataCh), (1021, Unsubscribe RxCtl)]\<rparr>"

definition garbledEnd :: world where
  "garbledEnd =
     garbledRead\<lparr>trace := trace garbledRead @
       [(1021, ConsoleError (ascii ''JSON parse error. Full response text:'')),
        (1021, ConsoleError [0x22, 0x61, 0x62, 0x22])]\<rparr>"

text \<open>The world in which sending the two octets of \<open>{}\<close> over two quiet steps ends.\<close>

definition sentBraces :: world where
  "sentBraces =
     \<lparr>now = 1017, replies = [], naps = [], listening = False, expectedLength = 0,
      trace = [(0, Write TxCtl [0, 0, 0, 2] False), (1, Sleep 1000),
               (1001, Write DataCh [0x7B, 0x7D] False), (1002, Sleep 15)]\<rparr>"

text \<open>
  A best-effort read during which a length is notified late: the first read takes three
  seconds, delivers one octet and is overtaken by a notification of length 1.
\<close>

definition slow :: "nat \<Rightarrow> buffer option list \<Rightarrow> buffer \<Rightarrow> step" where
  "slow ms bufs b = \<lparr>notified = bufs, took = ms, outcome = Resolved (Some b)\<rparr>"

definition lateStart :: world where
  "lateStart =
     \<lparr>now = 0, replies = [slow 3000 [Some [0, 0, 0, 1]] [0x61], slow 2500 [] [0x62]], naps = [],
      listening = True, expectedLength = 0, trace = []\<rparr>"

definition lateEnd :: world where
  "lateEnd =
     \<lparr>now = 5500, replies = [], naps = [], listening = True, expectedLength = 1,
      trace = [(0, Read DataCh), (3000, Read DataCh)]\<rparr>"

text \<open>A known-length read of two octets that first meets two empty reads.\<close>

definition knownStart :: world where
  "knownStart =
     \<lparr>now = 0, replies = [quiet, quiet, yields [1, 2]], naps = [],
      listening = True, expectedLength = 2, trace = []\<rparr>"

definition knownEnd :: world where
  "knownEnd =
     \<lparr>now = 553, replies = [], naps = [], listening = True, expectedLength = 2,
      trace = [(0, Read DataCh), (1, Sleep 250), (251, Read DataCh), (252, Sleep 300),
               (552, Read DataCh)]\<rparr>"

text \<open>
  A stale frame of three octets left by an earlier exchange, the world when it is flushed,
  and the worlds after one and two reads of RX_CTL that announce nothing.
\<close>

definition stale :: "step list" where
  "stale = [yields [0, 0, 0, 3], yields [1, 2], yields [3]]"

definition flushed :: world where
  "flushed =
     \<lparr>now = 3, replies = [], naps = [], listening = False, expectedLength = 0,
      trace = [(0, Read RxCtl), (1, Read DataCh), (2, Read DataCh)]\<rparr>"

definition polledTwice :: world where
  "polledTwice =
     \<lparr>now = 2, replies = [], naps = [], listening = False, expectedLength = 0,
      trace = [(0, Read RxCtl), (1, Read RxCtl)]\<rparr>"

definition polledOnceOfTwo :: world where
  "polledOnceOfTwo =
     \<lparr>now = 1, replies = [quiet], naps = [], listening = False, expectedLength = 0,
      trace = [(0, Read RxCtl)]\<rparr>"

text \<open>
  An exchange whose first attempt is never answered: thirty polls of RX_CTL come back
  empty, the request is sent again, and then the peer announces and sends \<open>{}\<close>.
\<close>

definition unanswered :: "step list" where
  "unanswered =
     [quiet, quiet, quiet, quiet,
      quiet, quiet, quiet, quiet, quiet, quiet, quiet, quiet, quiet, quiet,
      quiet, quiet, quiet, quiet, quiet, quiet, quiet, quiet, quiet, quiet,
      quiet, quiet, quiet, quiet, quiet, quiet, quiet, quiet, quiet, quiet,
      quiet, quiet, yields [0, 0, 0, 2], yields [0x7B, 0x7D]]"

text \<open>
  Two reads that outlast their budget. In best-effort mode a read issued at 4999 ms is
  answered three seconds later. In known-length mode, with two octets expected, the first
  octet comes after 20000 ms and the read that follows is empty.
\<close>

definition overrunStart :: world where
  "overrunStart =
     \<lparr>now = 0, replies = [slow 4999 [] [0x61], slow 3000 [] [0x62]], naps = [],
      listening = True, expectedLength = 0, trace = []\<rparr>"

definition overrunEnd :: world where
  "overrunEnd =
     \<lparr>now = 7999, replies = [], naps = [], listening = True, expectedLength = 0,
      trace = [(0, Read DataCh), (4999, Read DataCh)]\<rparr>"

definition lingerStart :: world where
  "lingerStart =
     \<lparr>now = 0, replies = [slow 20000 [] [1], quiet], naps = [],
      listening = True, expectedLength = 2, trace = []\<rparr>"

definition lingerEnd :: world where
  "lingerEnd =
     \<lparr>now = 20251, replies = [], naps = [], listening = True, expectedLength = 2,
      trace = [(0, Read DataCh), (20000, Read DataCh), (20001, Sleep 250)]\<rparr>"

text \<open>
  An exchange whose peer notifies a length of 5 while the length frame is being written
  and a length of 0 while the request is: the script (thereafter that of \<open>unanswered\<close>),
  and the worlds after the flush, after the subscription and after the write to TX_CTL.
\<close>

definition hears :: "buffer option list \<Rightarrow> step" where
  "hears bufs = \<lparr>notified = bufs, took = 1, outcome = Resolved None\<rparr>"

definition withdrawn :: "step list" where
  "withdrawn =
     [quiet, quiet, hears [Some [0, 0, 0, 5]], hears [Some [0, 0, 0, 0]],
      quiet, quiet, quiet, quiet, quiet, quiet, quiet, quiet, quiet, quiet,
      quiet, quiet, quiet, quiet, quiet, quiet, quiet, quiet, quiet, quiet,
      quiet, quiet, quiet, quiet, quiet, quiet, quiet, quiet, quiet, quiet,
      quiet, quiet, yields [0, 0, 0, 2], yields [0x7B, 0x7D]]"

definition flushedFirst :: world where
  "flushedFirst =
     \<lparr>now = 1, replies = drop 1 withdrawn, naps = [], listening = False, expectedLength = 0,
      trace = [(0, Read RxCtl)]\<rparr>"

definition subscribed :: world where
  "subscribed =
     \<lparr>now = 2, replies = drop 2 withdrawn, naps = [], listening = True, expectedLength = 0,
      trace = [(0, Read RxCtl), (1, Subscribe RxCtl)]\<rparr>"

definition announced :: world where
  "announced =
     \<lparr>now = 3, replies = drop 3 withdrawn, naps = [], listening = True, expectedLength = 5,
      trace = [(0, Read RxCtl), (1, Subscribe RxCtl), (2, Write TxCtl [0, 0, 0, 2] False)]\<rparr>"

text \<open>
  A runtime whose parser reports a text that breaks off the way V8 does, and an exchange
  whose peer announces one octet and sends an opening bracket: the script and the world
  at the end.
\<close>

definition terse :: platform where
  "terse =
     samplePlatform\<lparr>JSON_parse :=
       (\<lambda>s. if s = ascii ''{}'' then Inr (Obj [])
            else Inl (ascii ''Unexpected end of JSON input''))\<rparr>"

definition truncated :: "step list" where
  "truncated = [quiet, quiet, quiet, quiet, yields [0, 0, 0, 1], yields [0x5B]]"

definition truncatedEnd :: world where
  "truncatedEnd =
     \<lparr>now = 1021, replies = [], naps = [], listening = False, expectedLength = 1,
      trace = [(0, Read RxCtl), (1, Subscribe RxCtl), (2, Write TxCtl [0, 0, 0, 2] False),
               (3, Sleep 1000), (1003, Write DataCh [0x7B, 0x7D] False), (1004, Sleep 15),
               (1019, Read RxCtl), (1020, Read DataCh), (1021, Unsubscribe RxCtl),
               (1021, ConsoleError (ascii ''JSON parse error. Full response text:'')),
               (1021, ConsoleError [0x22, 0x5B, 0x22])]\<rparr>"

text \<open>A runtime that differs from the sample one in its parser alone: it accepts any text.\<close>

definition lenient :: platform where
  "lenient = samplePlatform\<lparr>JSON_parse := (\<lambda>s. Inr Null), utf8_decode := map ucast\<rparr>"

section \<open>Basic facts about the primitives\<close>

lemma deliver_fields [simp]:
  "now (deliver bufs w) = now w" "replies (deliver bufs w) = replies w"
  "naps (deliver bufs w) = naps w" "listening (deliver bufs w) = listening w"
  "trace (deliver bufs w) = trace w"
  by (simp_all add: deliver_def)

lemma deliver_Nil [simp]: "deliver [] w = w"
  by (simp add: deliver_def)

lemma settle_Some:
  assumes "settle call w = Some (r, w1)"
  shows "\<exists>s. replies w = s # replies w1 \<and> r = outcome s \<and> now w1 = now w + int (took s)
           \<and> trace w1 = trace w @ [(now w, call)] \<and> naps w1 = naps w
           \<and> listening w1 = listening w"
  using assms by (auto simp: settle_def deliver_def split: list.splits if_splits)

lemma trace_sleep [simp]: "trace (sleep ms w) = trace w @ [(now w, Sleep ms)]"
  by (simp add: sleep_def deliver_def split: list.splits)

lemma replies_sleep [simp]: "replies (sleep ms w) = replies w"
  by (simp add: sleep_def deliver_def split: list.splits)

lemma listening_sleep [simp]: "listening (sleep ms w) = listening w"
  by (simp add: sleep_def deliver_def split: list.splits)

lemma now_sleep: "now w + int ms \<le> now (sleep ms w)"
  by (simp add: sleep_def deliver_def split: list.splits)

lemma since_append: "trace w' = trace w @ new \<Longrightarrow> since w w' = new"
  by (simp add: since_def)

lemma writes_append [simp]: "writes (a @ b) = writes a @ writes b"
  by (simp add: writes_def)

lemma writes_Nil [simp]: "writes [] = []"
  by (simp add: writes_def)

lemma writes_Cons_Write [simp]: "writes ((t, Write c d wo) # es) = (c, d, wo) # writes es"
  by (simp add: writes_def writeOf_def)

lemma writes_Cons_Sleep [simp]: "writes ((t, Sleep ms) # es) = writes es"
  by (simp add: writes_def writeOf_def)

lemma writes_Cons_Read [simp]: "writes ((t, Read c) # es) = writes es"
  by (simp add: writes_def writeOf_def)

lemma reads_append [simp]: "reads (a @ b) = reads a @ reads b"
  by (simp add: reads_def)

lemma reads_Nil [simp]: "reads [] = []"
  by (simp add: reads_def)

lemma reads_Cons_Read [simp]: "reads ((t, Read c) # es) = (t, c) # reads es"
  by (simp add: reads_def readOf_def)

lemma reads_Cons_other [simp]:
  "reads ((t, Write c d wo) # es) = reads es" "reads ((t, Sleep ms) # es) = reads es"
  "reads ((t, Subscribe c) # es) = reads es" "reads ((t, Unsubscribe c) # es) = reads es"
  "reads ((t, ConsoleError s) # es) = reads es"
  by (simp_all add: reads_def readOf_def)

lemma writes_Cons_other [simp]:
  "writes ((t, Subscribe c) # es) = writes es" "writes ((t, Unsubscribe c) # es) = writes es"
  "writes ((t, ConsoleError s) # es) = writes es"
  by (simp_all add: writes_def writeOf_def)

lemma sleeps_append [simp]: "sleeps (a @ b) = sleeps a @ sleeps b"
  by (simp add: sleeps_def)

lemma sleeps_Nil [simp]: "sleeps [] = []"
  by (simp add: sleeps_def)

lemma sleeps_Cons_Sleep [simp]: "sleeps ((t, Sleep ms) # es) = ms # sleeps es"
  by (simp add: sleeps_def sleepOf_def)

lemma sleeps_Cons_other [simp]:
  "sleeps ((t, Read c) # es) = sleeps es" "sleeps ((t, Write c d wo) # es) = sleeps es"
  "sleeps ((t, Subscribe c) # es) = sleeps es" "sleeps ((t, Unsubscribe c) # es) = sleeps es"
  "sleeps ((t, ConsoleError s) # es) = sleeps es"
  by (simp_all add: sleeps_def sleepOf_def)

lemma read_None: "readCharacteristic c w = None \<longleftrightarrow> replies w = []"
  by (simp add: readCharacteristic_def settle_def split: list.splits)

lemma read_Some:
  assumes "readCharacteristic c w = Some (r, w1)"
  shows "\<exists>s. replies w = s # replies w1 \<and> outcome s = r \<and> now w1 = now w + int (took s)
           \<and> trace w1 = trace w @ [(now w, Read c)]"
  using settle_Some[of "Read c" w r w1] assms by (auto simp: readCharacteristic_def)

section \<open>The length frame\<close>

lemma unat_byte: "unat (of_nat n :: byte) = n mod 256"
  by (simp add: unat_of_nat)

lemma byte_le: "unat (x :: byte) \<le> 255"
  using unsigned_less[of x, where 'a=nat] by simp

lemma readUInt32BE_writeUInt32BE:
  assumes "writeUInt32BE n = Inr lenBuf"
  shows "length lenBuf = 4 \<and> readUInt32BE lenBuf = Inr n"
proof -
  from assms have lt: "n < 2 ^ 32"
    and lb: "lenBuf = [of_nat (n div 2 ^ 24), of_nat (n div 2 ^ 16), of_nat (n div 2 ^ 8), of_nat n]"
    by (auto simp: writeUInt32BE_def split: if_splits)
  have a: "n div 2 ^ 24 mod 256 = n div 2 ^ 24"
    using lt by (simp add: less_mult_imp_div_less)
  have b: "n div 2 ^ 16 mod 256 = n mod 2 ^ 24 div 2 ^ 16"
    using div_exp_mod_exp_eq[of n 16 8] by simp
  have c: "n div 2 ^ 8 mod 256 = n mod 2 ^ 16 div 2 ^ 8"
    using div_exp_mod_exp_eq[of n 8 8] by simp
  have d: "n mod 2 ^ 16 mod 2 ^ 8 = n mod 256"
    by (simp add: mod_mod_cancel)
  have e: "n mod 2 ^ 24 mod 2 ^ 16 = n mod 2 ^ 16"
    by (simp add: mod_mod_cancel le_imp_power_dvd)
  have f: "n = n div 2 ^ 24 * 2 ^ 24 + n mod 2 ^ 24"
    by simp
  have g: "n mod 2 ^ 24 = n mod 2 ^ 24 div 2 ^ 16 * 2 ^ 16 + n mod 2 ^ 16"
    using e div_mult_mod_eq[of "n mod 2 ^ 24" "2 ^ 16"] by simp
  have h: "n mod 2 ^ 16 = n mod 2 ^ 16 div 2 ^ 8 * 2 ^ 8 + n mod 256"
    using d div_mult_mod_eq[of "n mod 2 ^ 16" "2 ^ 8"] by simp
  from f g h have "n = n div 2 ^ 24 * 2 ^ 24 +
      (n mod 2 ^ 24 div 2 ^ 16 * 2 ^ 16 + (n mod 2 ^ 16 div 2 ^ 8 * 2 ^ 8 + n mod 256))"
    by linarith
  then show ?thesis
    using a b c unfolding lb by (simp add: unat_byte)
qed

lemma readUInt32BE_long:
  assumes "4 \<le> length b"
  shows "\<exists>n. readUInt32BE b = Inr n \<and> n < 2 ^ 32"
proof -
  from assms obtain b0 b1 b2 b3 r where b: "b = b0 # b1 # b2 # b3 # r"
    by (cases b rule: readUInt32BE.cases) auto
  show ?thesis
    using byte_le[of b0] byte_le[of b1] byte_le[of b2] byte_le[of b3] unfolding b by simp
qed

section \<open>The chunk loops\<close>

lemma slice_drop: "slice bs off (off + mtu) @ drop (off + mtu) bs = drop off bs"
proof -
  have "drop (off + mtu) bs = drop mtu (drop off bs)"
    by (simp add: add.commute)
  then show ?thesis
    unfolding slice_def by (simp only: add_diff_cancel_left' append_take_drop_id)
qed

lemma writeChunks_trace:
  "writeChunks mtu bs off w = Done u w' \<Longrightarrow> 0 < mtu \<Longrightarrow>
   \<exists>new cs. trace w' = trace w @ new \<and> writes new = map (\<lambda>c. (DataCh, c, False)) cs
      \<and> concat cs = drop off bs \<and> (\<forall>c\<in>set cs. 0 < length c \<and> length c \<le> mtu)"
proof (induction mtu bs off w rule: writeChunks.induct)
  case (1 mtu bs off w)
  show ?case
  proof (cases "off < length bs")
    case False
    with "1.prems" show ?thesis
      by (subst (asm) writeChunks.simps) (auto simp: since_def)
  next
    case True
    let ?c = "slice bs off (off + mtu)"
    from True "1.prems" obtain r w1 where
      s: "writeWithResponse DataCh ?c w = Some (Resolved r, w1)"
      and rec: "writeChunks mtu bs (off + mtu) (sleep 15 w1) = Done u w'"
      by (subst (asm) writeChunks.simps) (auto split: option.splits reply.splits)
    from s have tr1: "trace w1 = trace w @ [(now w, Write DataCh ?c False)]"
      by (auto simp: writeWithResponse_def characteristic_write_def dest: settle_Some)
    from "1.IH"[OF True s refl refl rec "1.prems"(2)] obtain new cs where
      n: "trace w' = trace (sleep 15 w1) @ new" "writes new = map (\<lambda>c. (DataCh, c, False)) cs"
         "concat cs = drop (off + mtu) bs" "\<forall>c\<in>set cs. 0 < length c \<and> length c \<le> mtu"
      by blast
    have len: "0 < length ?c" "length ?c \<le> mtu"
      using True "1.prems"(2) by (simp_all add: slice_def)
    show ?thesis
      apply (rule exI[of _ "[(now w, Write DataCh ?c False), (now w1, Sleep 15)] @ new"])
      apply (rule exI[of _ "?c # cs"])
      using n tr1 len slice_drop[of bs off mtu] by simp
  qed
qed

lemma retryWriteChunks_trace:
  "retryWriteChunks mtu bs off w = Done u w' \<Longrightarrow> 0 < mtu \<Longrightarrow>
   \<exists>new cs. trace w' = trace w @ new \<and> writes new = map (\<lambda>c. (DataCh, c, False)) cs
      \<and> concat cs = drop off bs \<and> (\<forall>c\<in>set cs. 0 < length c \<and> length c \<le> mtu)"
proof (induction mtu bs off w rule: retryWriteChunks.induct)
  case (1 mtu bs off w)
  show ?case
  proof (cases "off < length bs")
    case False
    with "1.prems" show ?thesis
      by (subst (asm) retryWriteChunks.simps) auto
  next
    case True
    let ?c = "slice bs off (off + mtu)"
    from True "1.prems" obtain r w1 where
      s: "characteristic_write DataCh ?c False w = Some (Resolved r, w1)"
      and rec: "retryWriteChunks mtu bs (off + mtu) (sleep 25 w1) = Done u w'"
      by (subst (asm) retryWriteChunks.simps) (auto split: option.splits reply.splits)
    from s have tr1: "trace w1 = trace w @ [(now w, Write DataCh ?c False)]"
      by (auto simp: characteristic_write_def dest: settle_Some)
    from "1.IH"[OF True s refl refl rec "1.prems"(2)] obtain new cs where
      n: "trace w' = trace (sleep 25 w1) @ new" "writes new = map (\<lambda>c. (DataCh, c, False)) cs"
         "concat cs = drop (off + mtu) bs" "\<forall>c\<in>set cs. 0 < length c \<and> length c \<le> mtu"
      by blast
    have len: "0 < length ?c" "length ?c \<le> mtu"
      using True "1.prems"(2) by (simp_all add: slice_def)
    show ?thesis
      apply (rule exI[of _ "[(now w, Write DataCh ?c False), (now w1, Sleep 25)] @ new"])
      apply (rule exI[of _ "?c # cs"])
      using n tr1 len slice_drop[of bs off mtu] by simp
  qed
qed

lemma transmit_trace:
  assumes "transmit bs w = Done u w'"
  shows "\<exists>lenBuf cs. writes (since w w') = (TxCtl, lenBuf, False) # map (\<lambda>c. (DataCh, c, False)) cs
          \<and> writeUInt32BE (length bs) = Inr lenBuf
          \<and> length lenBuf = 4 \<and> readUInt32BE lenBuf = Inr (length bs)
          \<and> concat cs = bs \<and> (\<forall>c\<in>set cs. 0 < length c \<and> length c \<le> 20)"
proof -
  from assms obtain lenBuf r w1 where
    lb: "writeUInt32BE (length bs) = Inr lenBuf"
    and s: "writeWithResponse TxCtl lenBuf w = Some (Resolved r, w1)"
    and ch: "writeChunks MTU_CHUNK bs 0 (sleep 1000 w1) = Done u w'"
    by (auto simp: transmit_def split: sum.splits option.splits reply.splits)
  from s have tr1: "trace w1 = trace w @ [(now w, Write TxCtl lenBuf False)]"
    by (auto simp: writeWithResponse_def characteristic_write_def dest: settle_Some)
  from writeChunks_trace[OF ch] obtain new cs where
    n: "trace w' = trace (sleep 1000 w1) @ new" "writes new = map (\<lambda>c. (DataCh, c, False)) cs"
       "concat cs = drop 0 bs" "\<forall>c\<in>set cs. 0 < length c \<and> length c \<le> MTU_CHUNK"
    by (auto simp: MTU_CHUNK_def)
  have "trace w' = trace w @ ((now w, Write TxCtl lenBuf False) # (now w1, Sleep 1000) # new)"
    using n(1) tr1 by simp
  then have "writes (since w w') = (TxCtl, lenBuf, False) # map (\<lambda>c. (DataCh, c, False)) cs"
    using n(2) by (simp add: since_append)
  then show ?thesis
    using n(3,4) lb readUInt32BE_writeUInt32BE[OF lb]
    by (intro exI[of _ lenBuf] exI[of _ cs]) (simp add: MTU_CHUNK_def)
qed

lemma retransmit_trace:
  assumes "retransmit bs w = Done u w'"
  shows "\<exists>lenBuf cs. writes (since w w') = (TxCtl, lenBuf, False) # map (\<lambda>c. (DataCh, c, False)) cs
          \<and> writeUInt32BE (length bs) = Inr lenBuf
          \<and> length lenBuf = 4 \<and> readUInt32BE lenBuf = Inr (length bs)
          \<and> concat cs = bs \<and> (\<forall>c\<in>set cs. 0 < length c \<and> length c \<le> 20)"
proof -
  from assms obtain lenBuf r w1 where
    lb: "writeUInt32BE (length bs) = Inr lenBuf"
    and s: "writeWithResponse TxCtl lenBuf w = Some (Resolved r, w1)"
    and ch: "retryWriteChunks MTU_CHUNK bs 0 (sleep 500 w1) = Done u w'"
    by (auto simp: retransmit_def split: sum.splits option.splits reply.splits)
  from s have tr1: "trace w1 = trace w @ [(now w, Write TxCtl lenBuf False)]"
    by (auto simp: writeWithResponse_def characteristic_write_def dest: settle_Some)
  from retryWriteChunks_trace[OF ch] obtain new cs where
    n: "trace w' = trace (sleep 500 w1) @ new" "writes new = map (\<lambda>c. (DataCh, c, False)) cs"
       "concat cs = drop 0 bs" "\<forall>c\<in>set cs. 0 < length c \<and> length c \<le> MTU_CHUNK"
    by (auto simp: MTU_CHUNK_def)
  have "trace w' = trace w @ ((now w, Write TxCtl lenBuf False) # (now w1, Sleep 500) # new)"
    using n(1) tr1 by simp
  then have "writes (since w w') = (TxCtl, lenBuf, False) # map (\<lambda>c. (DataCh, c, False)) cs"
    using n(2) by (simp add: since_append)
  then show ?thesis
    using n(3,4) lb readUInt32BE_writeUInt32BE[OF lb]
    by (intro exI[of _ lenBuf] exI[of _ cs]) (simp add: MTU_CHUNK_def)
qed

lemma either_transmit_trace:
  assumes "transmit bs w = Done u w' \<or> retransmit bs w = Done u w'"
  shows "\<exists>lenBuf cs.
         writes (since w w') = (TxCtl, lenBuf, False) # map (\<lambda>c. (DataCh, c, False)) cs
         \<and> writeUInt32BE (length bs) = Inr lenBuf
         \<and> length lenBuf = 4 \<and> readUInt32BE lenBuf = Inr (length bs)
         \<and> concat cs = bs \<and> (\<forall>c\<in>set cs. 0 < length c \<and> length c \<le> 20)"
  using assms
proof
  assume "transmit bs w = Done u w'"
  then show ?thesis by (rule transmit_trace)
next
  assume "retransmit bs w = Done u w'"
  then show ?thesis by (rule retransmit_trace)
qed


section \<open>Claims about transmission\<close>



text \<open>
  C2. Both chunk loops pass \<open>false\<close> as noble's \<open>withoutResponse\<close>: on the second attempt
  too, the chunk is written with response, although the log line of line 333 announces
  writes without response.
\<close>

theorem retry_chunks_written_with_response:
  "retransmit [1, 2, 3] (startAt [quiet, quiet]) = Done () (sent 500 25)
   \<and> writes (trace (sent 500 25)) = [(TxCtl, [0, 0, 0, 3], False), (DataCh, [1, 2, 3], False)]"
  by (simp add: retransmit_def writeUInt32BE_def characteristic_write_def writeWithResponse_def
      settle_def startAt_def quiet_def deliver_def sleep_def MTU_CHUNK_def slice_def
      retryWriteChunks.simps sent_def)


section \<open>Length signals\<close>

lemma onRxNotify_long:
  assumes "4 \<le> length b"
  shows "readUInt32BE b = Inr (onRxNotify (Some b) el)"
  using readUInt32BE_long[OF assms] assms by (auto simp: onRxNotify_def)

lemma onRxNotify_short: "shortRead r \<Longrightarrow> onRxNotify r el = el"
  by (auto simp: onRxNotify_def shortRead_def split: option.splits)

lemma deliver_last:
  assumes "listening w" "4 \<le> length b"
  shows "readUInt32BE b = Inr (expectedLength (deliver (bufs @ [Some b]) w))"
  using assms onRxNotify_long[OF assms(2)] by (simp add: deliver_def)

lemma pollLength_positive: "0 < expectedLength w \<Longrightarrow> pollLength i w = Done () w"
  by (subst pollLength.simps) simp

lemma retryPollLength_positive: "0 < expectedLength w \<Longrightarrow> retryPollLength i w = Done () w"
  by (subst retryPollLength.simps) simp

lemma pollLength_never_throws: "pollLength i w \<noteq> Thrown e w'"
proof (induction i w rule: pollLength.induct)
  case (1 i w)
  show ?case
    apply (subst pollLength.simps)
    using 1 by (auto split: option.splits reply.splits sum.splits simp: Let_def)
qed

lemma retryPollLength_never_throws: "retryPollLength i w \<noteq> Thrown e w'"
proof (induction i w rule: retryPollLength.induct)
  case (1 i w)
  show ?case
    apply (subst retryPollLength.simps)
    using 1 by (auto split: option.splits reply.splits sum.splits simp: Let_def)
qed

lemma flushChannels_never_throws: "flushChannels w \<noteq> Thrown e w'"
  by (simp add: flushChannels_def split: result.splits)

lemma flush_short:
  assumes "readCharacteristic RxCtl w = Some (Resolved r, w1)" "shortRead r"
  shows "flushChannels w = Done () w1"
  using assms by (auto simp: flushChannels_def flushBody_def shortRead_def split: option.splits)

lemma pollLength_short:
  assumes "i \<le> 30" "expectedLength w = 0"
    "readCharacteristic RxCtl w = Some (Resolved r, w1)" "shortRead r"
  shows "pollLength i w = pollLength (i + 1) (sleep 250 w1)"
  using assms by (subst pollLength.simps) (auto simp: shortRead_def split: option.splits)

lemma retryPollLength_short:
  assumes "i \<le> 20" "expectedLength w = 0"
    "readCharacteristic RxCtl w = Some (Resolved r, w1)" "shortRead r"
  shows "retryPollLength i w = retryPollLength (i + 1) (sleep 100 w1)"
  using assms by (subst retryPollLength.simps) (auto simp: shortRead_def split: option.splits)

lemma silent_read:
  assumes "silent w" "readCharacteristic c w = Some (r, w1)"
  shows "silent w1 \<and> expectedLength w1 = expectedLength w \<and> noSignal r"
  using assms
  by (auto simp: silent_def readCharacteristic_def settle_def split: list.splits)

lemma silent_sleep:
  assumes "silent w"
  shows "silent (sleep ms w) \<and> expectedLength (sleep ms w) = expectedLength w"
  using assms by (auto simp: silent_def sleep_def split: list.splits)

lemma pollLength_silent:
  "pollLength i w = Done u w' \<Longrightarrow> silent w \<Longrightarrow> expectedLength w' = expectedLength w"
proof (induction i w rule: pollLength.induct)
  case (1 i w)
  show ?case
  proof (cases "i \<le> 30 \<and> expectedLength w = 0")
    case False
    with "1.prems"(1) show ?thesis by (subst (asm) pollLength.simps) auto
  next
    case True
    with "1.prems"(1) obtain r w1 where
      rd: "readCharacteristic RxCtl w = Some (r, w1)"
      by (subst (asm) pollLength.simps) (auto split: option.splits)
    from silent_read[OF "1.prems"(2) rd] have
      s1: "silent w1" and e1: "expectedLength w1 = expectedLength w" and ns: "noSignal r"
      by simp_all
    from silent_sleep[OF s1] have
      s2: "silent (sleep 250 w1)" and e2: "expectedLength (sleep 250 w1) = expectedLength w1"
      by simp_all
    from ns True rd "1.prems"(1) have rec: "pollLength (i + 1) (sleep 250 w1) = Done u w'"
      by (subst (asm) pollLength.simps)
         (auto simp: noSignal_def shortRead_def split: reply.splits option.splits)
    show ?thesis
    proof (cases r)
      case Failed
      from "1.IH"(1)[OF True rd refl Failed rec s2] e1 e2 show ?thesis by simp
    next
      case (Resolved x)
      show ?thesis
      proof (cases x)
        case None
        from "1.IH"(2)[OF True rd refl Resolved None rec s2] e1 e2 show ?thesis by simp
      next
        case (Some b)
        with ns Resolved have "\<not> 4 \<le> length b" by (simp add: noSignal_def shortRead_def)
        from "1.IH"(5)[OF True rd refl Resolved Some this rec s2] e1 e2 show ?thesis by simp
      qed
    qed
  qed
qed


lemma retryPollLength_silent:
  "retryPollLength i w = Done u w' \<Longrightarrow> silent w \<Longrightarrow> expectedLength w' = expectedLength w"
proof (induction i w rule: retryPollLength.induct)
  case (1 i w)
  show ?case
  proof (cases "i \<le> 20 \<and> expectedLength w = 0")
    case False
    with "1.prems"(1) show ?thesis by (subst (asm) retryPollLength.simps) auto
  next
    case True
    with "1.prems"(1) obtain r w1 where
      rd: "readCharacteristic RxCtl w = Some (r, w1)"
      by (subst (asm) retryPollLength.simps) (auto split: option.splits)
    from silent_read[OF "1.prems"(2) rd] have
      s1: "silent w1" and e1: "expectedLength w1 = expectedLength w" and ns: "noSignal r"
      by simp_all
    from silent_sleep[OF s1] have
      s2: "silent (sleep 100 w1)" and e2: "expectedLength (sleep 100 w1) = expectedLength w1"
      by simp_all
    from ns True rd "1.prems"(1) have rec: "retryPollLength (i + 1) (sleep 100 w1) = Done u w'"
      by (subst (asm) retryPollLength.simps)
         (auto simp: noSignal_def shortRead_def split: reply.splits option.splits)
    show ?thesis
    proof (cases r)
      case Failed
      from "1.IH"(1)[OF True rd refl Failed rec s2] e1 e2 show ?thesis by simp
    next
      case (Resolved x)
      show ?thesis
      proof (cases x)
        case None
        from "1.IH"(2)[OF True rd refl Resolved None rec s2] e1 e2 show ?thesis by simp
      next
        case (Some b)
        with ns Resolved have "\<not> 4 \<le> length b" by (simp add: noSignal_def shortRead_def)
        from "1.IH"(5)[OF True rd refl Resolved Some this rec s2] e1 e2 show ?thesis by simp
      qed
    qed
  qed
qed


text \<open>
  C1, as the code has it. A notification of at least four octets stores the length it
  carries whatever \<open>expectedLength\<close> held before, so the last notification wins; the
  polling loops issue a read only while \<open>expectedLength\<close> is 0 at their test.
\<close>

theorem last_length_signal_wins:
  "(4 \<le> length b \<longrightarrow> readUInt32BE b = Inr (onRxNotify (Some b) el))
   \<and> (listening w \<and> 4 \<le> length b \<longrightarrow>
        readUInt32BE b = Inr (expectedLength (deliver (bufs @ [Some b]) w)))
   \<and> (0 < expectedLength v \<longrightarrow> pollLength i v = Done () v \<and> retryPollLength i v = Done () v)"
  using onRxNotify_long deliver_last pollLength_positive retryPollLength_positive by blast

theorem last_length_signal_wins_witness:
  "(4 \<le> length [0, 0, 0, 7 :: byte] \<and> listening (expecting 42) \<and> 0 < expectedLength (expecting 42))
   \<and> readUInt32BE [0, 0, 0, 7] = Inr (onRxNotify (Some [0, 0, 0, 7]) 42)
   \<and> readUInt32BE [0, 0, 0, 7] = Inr (expectedLength (deliver ([] @ [Some [0, 0, 0, 7]]) (expecting 42)))
   \<and> pollLength 1 (expecting 42) = Done () (expecting 42)
   \<and> retryPollLength 1 (expecting 42) = Done () (expecting 42)"
  using last_length_signal_wins[of "[0, 0, 0, 7]" 42 "expecting 42" "[]" "expecting 42" 1]
  by (simp add: expecting_def)

theorem later_notification_overwrites:
  "0 < expectedLength (expecting 42)
   \<and> 4 \<le> length [0, 0, 0, 7 :: byte]
   \<and> onRxNotify (Some [0, 0, 0, 7]) 42 \<noteq> 42
   \<and> expectedLength (deliver [Some [0, 0, 0, 7]] (expecting 42)) \<noteq> expectedLength (expecting 42)"
  by (simp add: expecting_def deliver_def onRxNotify_def)


text \<open>
  C9. A read of the length characteristic that yields no buffer or fewer than four octets
  is no signal: the handler returns with \<open>expectedLength\<close> as it was, the flush ends at
  once without error, both polling loops go on to their sleep and next poll without
  assigning, so that polling a silent peer ends with \<open>expectedLength\<close> unchanged; and
  neither the flush nor the polling loops ever throw.
\<close>

theorem short_length_read_is_no_signal:
  "(shortRead r \<longrightarrow> onRxNotify r el = el)
   \<and> (readCharacteristic RxCtl w = Some (Resolved r, w1) \<and> shortRead r \<longrightarrow>
        flushChannels w = Done () w1
        \<and> (i \<le> 30 \<and> expectedLength w = 0 \<longrightarrow>
             pollLength i w = pollLength (i + 1) (sleep 250 w1))
        \<and> (i \<le> 20 \<and> expectedLength w = 0 \<longrightarrow>
             retryPollLength i w = retryPollLength (i + 1) (sleep 100 w1)))
   \<and> (silent v \<and> (pollLength j v = Done u v' \<or> retryPollLength j v = Done u v') \<longrightarrow>
        expectedLength v' = expectedLength v)
   \<and> flushChannels v \<noteq> Thrown e v'' \<and> pollLength j v \<noteq> Thrown e v''
   \<and> retryPollLength j v \<noteq> Thrown e v''"
  using onRxNotify_short flush_short pollLength_short retryPollLength_short
    pollLength_silent retryPollLength_silent
    flushChannels_never_throws pollLength_never_throws retryPollLength_never_throws
  by (intro conjI impI) (simp_all, blast)

theorem short_length_read_is_no_signal_witness:
  "shortRead (Some [1, 2])
   \<and> onRxNotify (Some [1, 2]) 5 = 5
   \<and> readCharacteristic RxCtl (startAt [yields [1, 2]]) = Some (Resolved (Some [1, 2]), polledOnce)
   \<and> (20 :: nat) \<le> 30 \<and> expectedLength (startAt [yields [1, 2]]) = 0
   \<and> flushChannels (startAt [yields [1, 2]]) = Done () polledOnce
   \<and> pollLength 20 (startAt [yields [1, 2]]) = pollLength (20 + 1) (sleep 250 polledOnce)
   \<and> retryPollLength 20 (startAt [yields [1, 2]]) = retryPollLength (20 + 1) (sleep 100 polledOnce)
   \<and> silent (startAt [yields [1, 2]])
   \<and> pollLength 30 (startAt [yields [1, 2]]) = Done () (polledAndSlept 250)
   \<and> expectedLength (polledAndSlept 250) = expectedLength (startAt [yields [1, 2]])"
  (is "?S \<and> ?N \<and> ?R \<and> ?I \<and> ?E \<and> ?F \<and> ?P \<and> ?Q \<and> ?T \<and> ?D \<and> ?U")
proof -
  have s: ?S
    by (simp add: shortRead_def)
  have r: ?R
    by (simp add: readCharacteristic_def settle_def startAt_def yields_def polledOnce_def)
  have e: ?E
    by (simp add: startAt_def)
  have t: ?T
    by (simp add: silent_def startAt_def yields_def noSignal_def shortRead_def)
  have sl: "sleep 250 polledOnce = polledAndSlept 250"
    by (simp add: sleep_def polledOnce_def polledAndSlept_def)
  have d: ?D
    by (simp add: pollLength.simps [of 30] pollLength.simps [of 31] r sl e)
  note inst = short_length_read_is_no_signal [of "Some [1, 2]" 5 "startAt [yields [1, 2]]"
      polledOnce 20 "startAt [yields [1, 2]]" 30 "()" "polledAndSlept 250"]
  from inst s r e t d show ?thesis
    by simp
qed

section \<open>Decoding\<close>

lemma trim_empty_iff: "trim s = [] \<longleftrightarrow> blank s"
proof
  assume "trim s = []"
  then have h: "\<forall>c\<in>set (dropWhile isWhiteSpace s). isWhiteSpace c"
    by (simp add: trim_def dropWhile_eq_Nil_conv)
  have "dropWhile isWhiteSpace s = []"
  proof (rule ccontr)
    assume n: "dropWhile isWhiteSpace s \<noteq> []"
    then have nw: "\<not> isWhiteSpace (hd (dropWhile isWhiteSpace s))"
      by (rule hd_dropWhile)
    have m: "hd (dropWhile isWhiteSpace s) \<in> set (dropWhile isWhiteSpace s)"
      using n by (rule hd_in_set)
    from h m have "isWhiteSpace (hd (dropWhile isWhiteSpace s))"
      by (rule bspec)
    with nw show False
      by (rule notE)
  qed
  then show "blank s"
    by (simp add: blank_def list_all_iff dropWhile_eq_Nil_conv)
next
  assume "blank s"
  then have "\<forall>c\<in>set (dropWhile isWhiteSpace s). isWhiteSpace c"
    by (auto simp: blank_def list_all_iff dest: set_dropWhileD)
  then show "trim s = []"
    by (simp add: trim_def dropWhile_eq_Nil_conv)
qed

lemma decode_empty:
  "(\<exists>w'. decodeResponse rt received w = Thrown EmptyResponse w') \<longleftrightarrow> blank (utf8_decode rt received)"
  by (auto simp: decodeResponse_def Let_def trim_empty_iff split: sum.splits)

lemma decode_invalid:
  "(\<exists>m w'. decodeResponse rt received w = Thrown (ParseFailure m) w') \<longleftrightarrow>
     \<not> blank (utf8_decode rt received) \<and> (\<exists>m. JSON_parse rt (utf8_decode rt received) = Inl m)"
  by (auto simp: decodeResponse_def Let_def trim_empty_iff split: sum.splits)

lemma decode_invalid_surfaces:
  assumes "decodeResponse rt received w = Thrown (ParseFailure m) w'"
  shows "JSON_parse rt (utf8_decode rt received) = Inl m
     \<and> (now w, ConsoleError (JSON_stringify rt (Str (utf8_decode rt received)))) \<in> set (since w w')"
  using assms
  by (auto simp: decodeResponse_def Let_def since_def split: sum.splits if_splits)

lemma decode_ok:
  "decodeResponse rt received w = Done v w' \<longleftrightarrow>
     \<not> blank (utf8_decode rt received) \<and> JSON_parse rt (utf8_decode rt received) = Inr v \<and> w' = w"
  by (auto simp: decodeResponse_def Let_def trim_empty_iff split: sum.splits)

lemma decode_no_io:
  assumes "finalWorld (decodeResponse rt received w) = Some w'"
  shows "writes (since w w') = [] \<and> reads (since w w') = []"
  using assms
  by (auto simp: decodeResponse_def Let_def since_def finalWorld_def split: sum.splits if_splits)

lemma decode_settles: "decodeResponse rt received w \<noteq> Pending"
  by (auto simp: decodeResponse_def Let_def split: sum.splits)


section \<open>What each phase can throw\<close>

lemma writeChunks_throws: "writeChunks mtu bs off w = Thrown e w' \<Longrightarrow> e = Rejected"
proof (induction mtu bs off w rule: writeChunks.induct)
  case (1 mtu bs off w)
  from "1.prems" show ?case
    apply (subst (asm) writeChunks.simps)
    using "1.IH" by (auto split: if_splits option.splits reply.splits)
qed

lemma retryWriteChunks_throws: "retryWriteChunks mtu bs off w = Thrown e w' \<Longrightarrow> e = Rejected"
proof (induction mtu bs off w rule: retryWriteChunks.induct)
  case (1 mtu bs off w)
  from "1.prems" show ?case
    apply (subst (asm) retryWriteChunks.simps)
    using "1.IH" by (auto split: if_splits option.splits reply.splits)
qed

lemma transmit_throws: "transmit bs w = Thrown e w' \<Longrightarrow> e = Rejected \<or> e = RangeError"
  by (auto simp: transmit_def writeUInt32BE_def dest: writeChunks_throws
      split: if_splits sum.splits option.splits reply.splits)

lemma retransmit_throws: "retransmit bs w = Thrown e w' \<Longrightarrow> e = Rejected \<or> e = RangeError"
  by (auto simp: retransmit_def writeUInt32BE_def dest: retryWriteChunks_throws
      split: if_splits sum.splits option.splits reply.splits)

lemma subscribe_throws: "subscribeNotifications w = Thrown e w' \<Longrightarrow> e = Rejected"
  by (auto simp: subscribeNotifications_def split: option.splits reply.splits)

lemma read_shrinks:
  "readCharacteristic c w = Some (r, w1) \<Longrightarrow> length (replies w1) < length (replies w)"
  by (auto simp: readCharacteristic_def dest: settle_Some)

lemma readData_cases [case_names idle starved failed data empty]:
  obtains
    (idle) "\<not> wantsMore be st rcv w" "readData be st rcv ce w = Done rcv w"
  | (starved) "wantsMore be st rcv w" "readCharacteristic DataCh w = None"
      "readData be st rcv ce w = Pending"
  | (failed) w1 where "wantsMore be st rcv w" "readCharacteristic DataCh w = Some (Failed, w1)"
      "readData be st rcv ce w = readData be st rcv ce (sleep 250 w1)"
  | (data) c w1 where "wantsMore be st rcv w"
      "readCharacteristic DataCh w = Some (Resolved (Some c), w1)" "c \<noteq> []"
      "readData be st rcv ce w = readData be st (rcv @ c) 0 w1"
  | (empty) chunk w1 where "wantsMore be st rcv w"
      "readCharacteristic DataCh w = Some (Resolved chunk, w1)" "chunk = None \<or> chunk = Some []"
      "readData be st rcv ce w =
         readData be st rcv (ce + 1) (sleep (min (200 + (ce + 1) * 50) 500) w1)"
proof (cases "wantsMore be st rcv w")
  case False
  then have "readData be st rcv ce w = Done rcv w"
    by (subst readData.simps) (auto simp: wantsMore_def)
  with False show ?thesis by (rule idle)
next
  case True
  then have u: "readData be st rcv ce w =
      (case readCharacteristic DataCh w of
         None \<Rightarrow> Pending
       | Some (Failed, w1) \<Rightarrow> readData be st rcv ce (sleep 250 w1)
       | Some (Resolved chunk, w1) \<Rightarrow>
           (let chunkLen = (case chunk of None \<Rightarrow> 0 | Some c \<Rightarrow> length c) in
            if chunkLen > 0 then
              readData be st (rcv @ (case chunk of None \<Rightarrow> [] | Some c \<Rightarrow> c)) 0 w1
            else
              readData be st rcv (ce + 1) (sleep (min (200 + (ce + 1) * 50) 500) w1)))"
    by (subst readData.simps) (auto simp: wantsMore_def)
  show ?thesis
  proof (cases "readCharacteristic DataCh w")
    case None
    with u True show ?thesis by (intro starved) simp_all
  next
    case (Some a)
    obtain r w1 where a: "a = (r, w1)" by (cases a)
    show ?thesis
    proof (cases r)
      case Failed
      with u True Some a show ?thesis by (intro failed[of w1]) simp_all
    next
      case (Resolved chunk)
      show ?thesis
      proof (cases "chunk = None \<or> chunk = Some []")
        case True
        with u \<open>wantsMore be st rcv w\<close> Some a Resolved show ?thesis
          by (intro empty[of chunk w1]) auto
      next
        case False
        then obtain c where "chunk = Some c" "c \<noteq> []" by auto
        with u \<open>wantsMore be st rcv w\<close> Some a Resolved show ?thesis
          by (intro data[of c w1]) auto
      qed
    qed
  qed
qed

lemma readData_never_throws: "readData be st rcv ce w \<noteq> Thrown e w'"
proof (induction "length (replies w)" arbitrary: w rcv ce rule: less_induct)
  case less
  show ?case
  proof (cases rule: readData_cases[of be st rcv w ce])
    case idle
    then show ?thesis by simp
  next
    case starved
    then show ?thesis by simp
  next
    case (failed w1)
    from less[of "sleep 250 w1"] read_shrinks[OF failed(2)] failed(3) show ?thesis by simp
  next
    case (data c w1)
    from less[of w1] read_shrinks[OF data(2)] data(4) show ?thesis by simp
  next
    case (empty chunk w1)
    from less[of "sleep (min (200 + (ce + 1) * 50) 500) w1"] read_shrinks[OF empty(2)] empty(4)
    show ?thesis by simp
  qed
qed

lemma andThen_Thrown:
  "andThen r k = Thrown e w' \<Longrightarrow>
     r = Thrown e w' \<or> (\<exists>x w. r = Done x w \<and> k x w = Thrown e w')"
  by (auto simp: andThen_def split: result.splits)

lemma andThen_Done:
  "andThen r k = Done y w' \<Longrightarrow> (\<exists>x w. r = Done x w \<and> k x w = Done y w')"
  by (auto simp: andThen_def split: result.splits)

lemma firstAttempt_throws:
  assumes "firstAttempt rt method p w0 = Thrown e w'"
  shows "e = Rejected \<or> e = RangeError"
  using assms unfolding firstAttempt_def sendRequest_def
  by (auto dest!: andThen_Thrown
      dest: flushChannels_never_throws[THEN notE] subscribe_throws transmit_throws
        pollLength_never_throws[THEN notE])

lemma retryOnce_throws:
  assumes "retryOnce rt method p received w4 = Thrown e w'"
  shows "e = Rejected \<or> e = RangeError"
  using assms unfolding retryOnce_def resendRequest_def
  by (auto dest!: andThen_Thrown
      dest: retransmit_throws retryPollLength_never_throws[THEN notE] split: if_splits)

lemma receive_never_throws: "receive received w \<noteq> Thrown e w'"
  by (simp add: receive_def Let_def readData_never_throws)

text \<open>The definitions a sample exchange unfolds.\<close>

lemmas sample_run = samplePlatform_def startAt_def quiet_def yields_def
  sendRpcAndReceive_def firstAttempt_def retryOnce_def receive_def andThen_def
  flushChannels_def flushBody_def subscribeNotifications_def sendRequest_def requestBytes_def
  transmit_def writeUInt32BE_def writeWithResponse_def characteristic_write_def
  readCharacteristic_def settle_def sleep_def MTU_CHUNK_def slice_def
  writeChunks.simps pollLength.simps readData.simps maxDurationMs_def
  unsubscribeRxNotify_def decodeResponse_def ascii_def trim_def isWhiteSpace_def
  deliver_def onRxNotify_def Let_def requestObject_def

section \<open>The request\<close>

lemma written_frame_chunks:
  assumes "writes tr = (TxCtl, lenBuf, False) # map (\<lambda>c. (DataCh, c, False)) cs"
  shows "written DataCh tr = cs" and "written TxCtl tr = [lenBuf]"
proof -
  have a: "filter (\<lambda>x. fst x = DataCh) (map (\<lambda>c. (DataCh, c, False)) cs) = map (\<lambda>c. (DataCh, c, False)) cs"
    by (induction cs) simp_all
  have b: "filter (\<lambda>x. fst x = TxCtl) (map (\<lambda>c. (DataCh, c, False)) cs) = []"
    by (induction cs) simp_all
  show "written DataCh tr = cs"
    using assms a by (simp add: written_def comp_def)
  show "written TxCtl tr = [lenBuf]"
    using assms b by (simp add: written_def)
qed

lemma sendRequest_bytes:
  assumes "sendRequest rt m p w = Done u w' \<or> resendRequest rt m p w = Done u w'"
  shows "concat (written DataCh (since w w')) =
         utf8_encode rt (JSON_stringify rt
           (Obj [(ascii ''id'', Num (now w)), (ascii ''src'', Str (ascii ''user_1'')),
                 (ascii ''method'', Str m),
                 (ascii ''params'', if truthy p then p else Obj [])]))"
proof -
  let ?bs = "requestBytes rt (now w) m p"
  from assms have "transmit ?bs w = Done u w' \<or> retransmit ?bs w = Done u w'"
    by (simp add: sendRequest_def resendRequest_def)
  from either_transmit_trace[OF this] obtain lenBuf cs where
    w: "writes (since w w') = (TxCtl, lenBuf, False) # map (\<lambda>c. (DataCh, c, False)) cs"
    and c: "concat cs = ?bs"
    by blast
  from written_frame_chunks(1)[OF w] c show ?thesis
    by (simp add: requestBytes_def requestObject_def Let_def)
qed

lemma requestObject_keys:
  "\<exists>fields. requestObject t m p = Obj fields
     \<and> map fst fields = [ascii ''id'', ascii ''src'', ascii ''method'', ascii ''params'']
     \<and> ascii ''jsonrpc'' \<notin> set (map fst fields)"
  by (simp add: requestObject_def ascii_def)

lemma truthy_iff: "truthy p \<longleftrightarrow> p \<notin> {Undefined, Null, Bool False, Num 0, Str []}"
  by (cases p) auto

text \<open>
  C4, as the code has it. The octets written to the data characteristic by a completed
  send (first or second attempt) are the UTF-8 encoding of \<open>JSON.stringify\<close> of the object
  with the keys id (the clock when the request is built), src (\<open>user_1\<close>), method and
  params, in this order and with no jsonrpc key; params is the caller's value when that
  value is truthy and \<open>{}\<close> when it is absent, null, false, 0 or the empty string.
\<close>

theorem request_bytes_sent:
  "(sendRequest rt m p w = Done u w' \<or> resendRequest rt m p w = Done u w' \<longrightarrow>
       concat (written DataCh (since w w')) =
         utf8_encode rt (JSON_stringify rt
           (Obj [(ascii ''id'', Num (now w)), (ascii ''src'', Str (ascii ''user_1'')),
                 (ascii ''method'', Str m),
                 (ascii ''params'', if truthy p then p else Obj [])])))
   \<and> (\<exists>fields. requestObject t m p = Obj fields
         \<and> map fst fields = [ascii ''id'', ascii ''src'', ascii ''method'', ascii ''params'']
         \<and> ascii ''jsonrpc'' \<notin> set (map fst fields))
   \<and> (truthy p \<longleftrightarrow> p \<notin> {Undefined, Null, Bool False, Num 0, Str []})"
  using sendRequest_bytes[of rt m p w u w'] requestObject_keys[of t m p] truthy_iff[of p]
  by (intro conjI impI) simp_all

theorem request_bytes_sent_witness:
  "sendRequest samplePlatform (ascii ''Shelly.GetStatus'') (Obj []) (startAt [quiet, quiet]) =
     Done () sentBraces
   \<and> concat (written DataCh (since (startAt [quiet, quiet]) sentBraces)) =
       utf8_encode samplePlatform (JSON_stringify samplePlatform
         (Obj [(ascii ''id'', Num (now (startAt [quiet, quiet]))),
               (ascii ''src'', Str (ascii ''user_1'')),
               (ascii ''method'', Str (ascii ''Shelly.GetStatus'')),
               (ascii ''params'', if truthy (Obj []) then Obj [] else Obj [])]))
   \<and> concat (written DataCh (since (startAt [quiet, quiet]) sentBraces)) = [0x7B, 0x7D]"
  (is "?S \<and> ?C \<and> ?V")
proof -
  have s: ?S
    by (simp add: sample_run sentBraces_def)
  from request_bytes_sent [of samplePlatform "ascii ''Shelly.GetStatus''" "Obj []"
      "startAt [quiet, quiet]" "()" sentBraces] s
  have c: ?C
    by simp
  have v: ?V
    by (simp add: since_def startAt_def sentBraces_def written_def)
  from s c v show ?thesis
    by simp
qed

theorem falsy_params_replaced:
  "requestObject 0 (ascii ''Sys.SetConfig'') (Num 0) = requestObject 0 (ascii ''Sys.SetConfig'') (Obj [])
   \<and> requestObject 0 (ascii ''Sys.SetConfig'') (Num 0) \<noteq>
       Obj [(ascii ''id'', Num 0), (ascii ''src'', Str (ascii ''user_1'')),
            (ascii ''method'', Str (ascii ''Sys.SetConfig'')), (ascii ''params'', Num 0)]"
  by (simp add: requestObject_def)

section \<open>The read loop\<close>

lemma deaf_read:
  "readCharacteristic c (deaf n w) = map_option (\<lambda>(r, w1). (r, deaf n w1)) (readCharacteristic c w)"
  by (simp add: readCharacteristic_def settle_def deaf_def deliver_def split: list.splits)

lemma deaf_sleep: "sleep ms (deaf n w) = deaf n (sleep ms w)"
  by (simp add: sleep_def deaf_def deliver_def split: list.splits)

lemma wantsMore_bestEffort: "wantsMore True st rcv w = (now w - st < 5000)"
  by (auto simp: wantsMore_def maxDurationMs_def)

lemma wantsMore_deaf: "wantsMore True st rcv (deaf n w) = wantsMore True st rcv w"
  by (simp add: wantsMore_bestEffort deaf_def)

lemma readData_deaf:
  "readData True st rcv ce (deaf n w) = mapWorld (deaf n) (readData True st rcv ce w)"
proof (induction "length (replies w)" arbitrary: w rcv ce rule: less_induct)
  case less
  show ?case
  proof (cases rule: readData_cases[of True st rcv w ce])
    case idle
    then have "\<not> wantsMore True st rcv (deaf n w)" by (simp add: wantsMore_deaf)
    then have "readData True st rcv ce (deaf n w) = Done rcv (deaf n w)"
      by (cases rule: readData_cases[of True st rcv "deaf n w" ce]) simp_all
    with idle show ?thesis by (simp add: mapWorld_def)
  next
    case starved
    then have "readCharacteristic DataCh (deaf n w) = None" by (simp add: deaf_read)
    moreover from starved have "wantsMore True st rcv (deaf n w)" by (simp add: wantsMore_deaf)
    ultimately have "readData True st rcv ce (deaf n w) = Pending"
      by (cases rule: readData_cases[of True st rcv "deaf n w" ce]) simp_all
    with starved show ?thesis by (simp add: mapWorld_def)
  next
    case (failed w1)
    then have r: "readCharacteristic DataCh (deaf n w) = Some (Failed, deaf n w1)"
      by (simp add: deaf_read)
    from failed have wm: "wantsMore True st rcv (deaf n w)" by (simp add: wantsMore_deaf)
    from wm r have "readData True st rcv ce (deaf n w) = readData True st rcv ce (sleep 250 (deaf n w1))"
      by (cases rule: readData_cases[of True st rcv "deaf n w" ce]) simp_all
    also have "\<dots> = mapWorld (deaf n) (readData True st rcv ce (sleep 250 w1))"
      using less[of "sleep 250 w1" rcv ce] read_shrinks[OF failed(2)] by (simp add: deaf_sleep)
    finally show ?thesis using failed(3) by simp
  next
    case (data c w1)
    then have r: "readCharacteristic DataCh (deaf n w) = Some (Resolved (Some c), deaf n w1)"
      by (simp add: deaf_read)
    from data have wm: "wantsMore True st rcv (deaf n w)" by (simp add: wantsMore_deaf)
    from wm r data(3) have "readData True st rcv ce (deaf n w) = readData True st (rcv @ c) 0 (deaf n w1)"
      by (cases rule: readData_cases[of True st rcv "deaf n w" ce]) auto
    also have "\<dots> = mapWorld (deaf n) (readData True st (rcv @ c) 0 w1)"
      using less[of w1 "rcv @ c" 0] read_shrinks[OF data(2)] by simp
    finally show ?thesis using data(4) by simp
  next
    case (empty chunk w1)
    then have r: "readCharacteristic DataCh (deaf n w) = Some (Resolved chunk, deaf n w1)"
      by (simp add: deaf_read)
    from empty have wm: "wantsMore True st rcv (deaf n w)" by (simp add: wantsMore_deaf)
    let ?ms = "min (200 + (ce + 1) * 50) 500"
    from wm r empty(3) have "readData True st rcv ce (deaf n w) =
        readData True st rcv (ce + 1) (sleep ?ms (deaf n w1))"
      by (cases rule: readData_cases[of True st rcv "deaf n w" ce]) auto
    also have "\<dots> = mapWorld (deaf n) (readData True st rcv (ce + 1) (sleep ?ms w1))"
      using less[of "sleep ?ms w1" rcv "ce + 1"] read_shrinks[OF empty(2)] by (simp add: deaf_sleep)
    finally show ?thesis using empty(4) by simp
  qed
qed

lemma readData_bestEffort_window:
  "readData True st rcv ce w = Done r w' \<Longrightarrow> 5000 \<le> now w' - st"
proof (induction "length (replies w)" arbitrary: w rcv ce rule: less_induct)
  case less
  show ?case
  proof (cases rule: readData_cases[of True st rcv w ce])
    case idle
    with less.prems show ?thesis by (simp add: wantsMore_bestEffort)
  next
    case starved
    with less.prems show ?thesis by simp
  next
    case (failed w1)
    from less.hyps[of "sleep 250 w1" rcv ce] read_shrinks[OF failed(2)] failed(3) less.prems
    show ?thesis by simp
  next
    case (data c w1)
    from less.hyps[of w1 "rcv @ c" 0] read_shrinks[OF data(2)] data(4) less.prems
    show ?thesis by simp
  next
    case (empty chunk w1)
    from less.hyps[of "sleep (min (200 + (ce + 1) * 50) 500) w1" rcv "ce + 1"]
      read_shrinks[OF empty(2)] empty(4) less.prems
    show ?thesis by simp
  qed
qed


lemma butlast_step:
  "int (sum_list (map pace (butlast (s # rs)))) \<le> int (pace s) + int (sum_list (map pace (butlast rs)))"
  by (cases rs) simp_all

lemma readData_pending_budget:
  "readData be st rcv ce w = Pending \<Longrightarrow>
   now w - st + int (sum_list (map pace (butlast (replies w)))) \<le> maxDurationMs be"
proof (induction "length (replies w)" arbitrary: w rcv ce rule: less_induct)
  case less
  show ?case
  proof (cases rule: readData_cases[of be st rcv w ce])
    case idle
    with less.prems show ?thesis by simp
  next
    case starved
    then show ?thesis by (simp add: read_None wantsMore_def)
  next
    case (failed w1)
    from read_Some[OF failed(2)] obtain s where
      s: "replies w = s # replies w1" "outcome s = Failed" "now w1 = now w + int (took s)"
      by blast
    have p: "pace s = took s + 250" using s(2) by (simp add: pace_def stall_def split: reply.splits)
    from less.hyps[of "sleep 250 w1" rcv ce] read_shrinks[OF failed(2)] failed(3) less.prems
    have "now (sleep 250 w1) - st + int (sum_list (map pace (butlast (replies w1)))) \<le> maxDurationMs be"
      by simp
    with now_sleep[of w1 250] s(3) p butlast_step[of s "replies w1"] show ?thesis
      unfolding s(1) by linarith
  next
    case (data c w1)
    from read_Some[OF data(2)] obtain s where
      s: "replies w = s # replies w1" "outcome s = Resolved (Some c)" "now w1 = now w + int (took s)"
      by blast
    have p: "pace s = took s" using s(2) data(3) by (simp add: pace_def stall_def split: reply.splits option.splits)
    from less.hyps[of w1 "rcv @ c" 0] read_shrinks[OF data(2)] data(4) less.prems
    have "now w1 - st + int (sum_list (map pace (butlast (replies w1)))) \<le> maxDurationMs be"
      by simp
    with s(3) p butlast_step[of s "replies w1"] show ?thesis
      unfolding s(1) by linarith
  next
    case (empty chunk w1)
    let ?ms = "min (200 + (ce + 1) * 50) 500"
    from read_Some[OF empty(2)] obtain s where
      s: "replies w = s # replies w1" "outcome s = Resolved chunk" "now w1 = now w + int (took s)"
      by blast
    have p: "pace s = took s + 250" using s(2) empty(3) by (auto simp: pace_def stall_def split: reply.splits option.splits)
    have ms: "250 \<le> ?ms" by simp
    from less.hyps[of "sleep ?ms w1" rcv "ce + 1"] read_shrinks[OF empty(2)] empty(4) less.prems
    have "now (sleep ?ms w1) - st + int (sum_list (map pace (butlast (replies w1)))) \<le> maxDurationMs be"
      by simp
    with now_sleep[of w1 ?ms] ms s(3) p butlast_step[of s "replies w1"] show ?thesis
      unfolding s(1) by linarith
  qed
qed

lemma stalls_pace: "250 * length (filter stall xs) \<le> sum_list (map pace xs)"
  by (induction xs) (simp_all add: pace_def)

lemma length_pace: "\<forall>s\<in>set xs. 0 < took s \<Longrightarrow> length xs \<le> sum_list (map pace xs)"
  by (induction xs) (auto simp: pace_def Suc_le_eq add_pos_pos trans_less_add1)

lemma stalls_butlast: "length (filter stall xs) \<le> length (filter stall (butlast xs)) + 1"
proof (cases xs rule: rev_cases)
  case Nil
  then show ?thesis by simp
next
  case (snoc ys y)
  then show ?thesis by simp
qed

lemma readData_pending_stalls:
  assumes "readData be st rcv ce w = Pending" "st \<le> now w"
  shows "length (filter stall (replies w)) \<le> nat (maxDurationMs be) div 250 + 1"
proof -
  from readData_pending_budget[OF assms(1)] assms(2)
  have "int (sum_list (map pace (butlast (replies w)))) \<le> maxDurationMs be"
    by linarith
  then have "sum_list (map pace (butlast (replies w))) \<le> nat (maxDurationMs be)"
    by linarith
  with stalls_pace[of "butlast (replies w)"]
  have "250 * length (filter stall (butlast (replies w))) \<le> nat (maxDurationMs be)"
    by linarith
  then have "length (filter stall (butlast (replies w))) \<le> nat (maxDurationMs be) div 250"
    by (simp add: less_eq_div_iff_mult_less_eq mult.commute)
  with stalls_butlast[of "replies w"] show ?thesis
    by linarith
qed

lemma readData_pending_reads:
  assumes "readData be st rcv ce w = Pending" "st \<le> now w" "\<forall>s\<in>set (replies w). 0 < took s"
  shows "length (replies w) \<le> nat (maxDurationMs be) + 1"
proof -
  from readData_pending_budget[OF assms(1)] assms(2)
  have "int (sum_list (map pace (butlast (replies w)))) \<le> maxDurationMs be"
    by linarith
  then have a: "sum_list (map pace (butlast (replies w))) \<le> nat (maxDurationMs be)"
    by linarith
  from assms(3) have "\<forall>s\<in>set (butlast (replies w)). 0 < took s"
    by (auto dest: in_set_butlastD)
  from length_pace[OF this] a have "length (butlast (replies w)) \<le> nat (maxDurationMs be)"
    by linarith
  then show ?thesis by simp
qed


lemma wantsMore_inBudget: "wantsMore be st rcv w \<Longrightarrow> inBudget be st (now w, DataCh)"
  by (auto simp: wantsMore_def inBudget_def)

lemma readData_done:
  "readData be st rcv ce w = Done r w' \<Longrightarrow>
     \<not> wantsMore be st r w'
     \<and> (\<exists>new used more. trace w' = trace w @ new \<and> replies w = used @ replies w'
          \<and> r = rcv @ more
          \<and> sleeps new = backoffPolicy ce (map outcome used)
          \<and> (\<forall>x\<in>set (reads new). inBudget be st x))"
proof (induction "length (replies w)" arbitrary: w rcv ce rule: less_induct)
  case less
  show ?case
  proof (cases rule: readData_cases[of be st rcv w ce])
    case idle
    with less.prems have "r = rcv" "w' = w" by simp_all
    with idle(1) show ?thesis
      by (intro conjI exI[of _ "[]"]) simp_all
  next
    case starved
    with less.prems show ?thesis by simp
  next
    case (failed w1)
    from read_Some[OF failed(2)] obtain s where
      s: "replies w = s # replies w1" "outcome s = Failed" "now w1 = now w + int (took s)"
         "trace w1 = trace w @ [(now w, Read DataCh)]"
      by blast
    from less.hyps[of "sleep 250 w1" rcv ce] read_shrinks[OF failed(2)] failed(3) less.prems
    obtain new used more where
      ih: "\<not> wantsMore be st r w'" "trace w' = trace (sleep 250 w1) @ new"
          "replies (sleep 250 w1) = used @ replies w'" "r = rcv @ more"
          "sleeps new = backoffPolicy ce (map outcome used)" "\<forall>x\<in>set (reads new). inBudget be st x"
      by auto
    show ?thesis
    proof (intro conjI exI[of _ "(now w, Read DataCh) # (now w1, Sleep 250) # new"]
        exI[of _ "s # used"] exI[of _ more])
      show "\<not> wantsMore be st r w'" by (rule ih(1))
      show "trace w' = trace w @ (now w, Read DataCh) # (now w1, Sleep 250) # new"
        using ih(2) s(4) by simp
      show "replies w = (s # used) @ replies w'" using ih(3) s(1) by simp
      show "r = rcv @ more" by (rule ih(4))
      show "sleeps ((now w, Read DataCh) # (now w1, Sleep 250) # new) =
          backoffPolicy ce (map outcome (s # used))"
        using ih(5) s(2) by simp
      show "\<forall>x\<in>set (reads ((now w, Read DataCh) # (now w1, Sleep 250) # new)). inBudget be st x"
        using ih(6) wantsMore_inBudget[OF failed(1)] by simp
    qed
  next
    case (data c w1)
    from read_Some[OF data(2)] obtain s where
      s: "replies w = s # replies w1" "outcome s = Resolved (Some c)" "now w1 = now w + int (took s)"
         "trace w1 = trace w @ [(now w, Read DataCh)]"
      by blast
    from less.hyps[of w1 "rcv @ c" 0] read_shrinks[OF data(2)] data(4) less.prems
    obtain new used more where
      ih: "\<not> wantsMore be st r w'" "trace w' = trace w1 @ new"
          "replies w1 = used @ replies w'" "r = (rcv @ c) @ more"
          "sleeps new = backoffPolicy 0 (map outcome used)" "\<forall>x\<in>set (reads new). inBudget be st x"
      by auto
    show ?thesis
    proof (intro conjI exI[of _ "(now w, Read DataCh) # new"]
        exI[of _ "s # used"] exI[of _ "c @ more"])
      show "\<not> wantsMore be st r w'" by (rule ih(1))
      show "trace w' = trace w @ (now w, Read DataCh) # new"
        using ih(2) s(4) by simp
      show "replies w = (s # used) @ replies w'" using ih(3) s(1) by simp
      show "r = rcv @ c @ more" using ih(4) by simp
      show "sleeps ((now w, Read DataCh) # new) = backoffPolicy ce (map outcome (s # used))"
        using ih(5) s(2) data(3) by simp
      show "\<forall>x\<in>set (reads ((now w, Read DataCh) # new)). inBudget be st x"
        using ih(6) wantsMore_inBudget[OF data(1)] by simp
    qed
  next
    case (empty chunk w1)
    let ?ms = "min (200 + (ce + 1) * 50) 500"
    from read_Some[OF empty(2)] obtain s where
      s: "replies w = s # replies w1" "outcome s = Resolved chunk" "now w1 = now w + int (took s)"
         "trace w1 = trace w @ [(now w, Read DataCh)]"
      by blast
    from less.hyps[of "sleep ?ms w1" rcv "ce + 1"] read_shrinks[OF empty(2)] empty(4) less.prems
    obtain new used more where
      ih: "\<not> wantsMore be st r w'" "trace w' = trace (sleep ?ms w1) @ new"
          "replies (sleep ?ms w1) = used @ replies w'" "r = rcv @ more"
          "sleeps new = backoffPolicy (ce + 1) (map outcome used)"
          "\<forall>x\<in>set (reads new). inBudget be st x"
      by auto
    have pol: "backoffPolicy ce (map outcome (s # used)) = ?ms # backoffPolicy (ce + 1) (map outcome used)"
      using s(2) empty(3) by (auto simp: mult.commute)
    show ?thesis
    proof (intro conjI exI[of _ "(now w, Read DataCh) # (now w1, Sleep ?ms) # new"]
        exI[of _ "s # used"] exI[of _ more])
      show "\<not> wantsMore be st r w'" by (rule ih(1))
      show "trace w' = trace w @ (now w, Read DataCh) # (now w1, Sleep ?ms) # new"
        using ih(2) s(4) by simp
      show "replies w = (s # used) @ replies w'" using ih(3) s(1) by simp
      show "r = rcv @ more" by (rule ih(4))
      show "sleeps ((now w, Read DataCh) # (now w1, Sleep ?ms) # new) =
          backoffPolicy ce (map outcome (s # used))"
        using ih(5) pol by simp
      show "\<forall>x\<in>set (reads ((now w, Read DataCh) # (now w1, Sleep ?ms) # new)). inBudget be st x"
        using ih(6) wantsMore_inBudget[OF empty(1)] by simp
    qed
  qed
qed


lemma wantsMore_known:
  "wantsMore False st rcv w \<longleftrightarrow> length rcv < expectedLength w \<and> now w - st \<le> 20000"
  by (auto simp: wantsMore_def maxDurationMs_def)

lemma readData_idle: "\<not> wantsMore be st rcv w \<Longrightarrow> readData be st rcv ce w = Done rcv w"
  by (cases rule: readData_cases[of be st rcv w ce]) simp_all

lemma readData_done_since:
  assumes "readData be st rcv ce w = Done r w'"
  shows "\<not> wantsMore be st r w'
     \<and> (\<forall>x\<in>set (reads (since w w')). inBudget be st x)
     \<and> (\<exists>used. replies w = used @ replies w'
           \<and> sleeps (since w w') = backoffPolicy ce (map outcome used))"
proof -
  from readData_done[OF assms] obtain new used more where
    a: "\<not> wantsMore be st r w'" "trace w' = trace w @ new" "replies w = used @ replies w'"
       "sleeps new = backoffPolicy ce (map outcome used)" "\<forall>x\<in>set (reads new). inBudget be st x"
    by blast
  from since_append[OF a(2)] a show ?thesis
    by (intro conjI exI[of _ used]) simp_all
qed

lemma sleep_late: "now (sleep ms w) \<le> now w + int ms + int (worstLag (naps w))"
  by (simp add: sleep_def deliver_def split: list.splits)

lemma sleep_naps: "worstLag (naps (sleep ms w)) \<le> worstLag (naps w)"
  by (simp add: sleep_def deliver_def split: list.splits)

lemma read_naps: "readCharacteristic c w = Some (r, w1) \<Longrightarrow> naps w1 = naps w"
  using settle_Some[of "Read c" w r w1] by (auto simp: readCharacteristic_def)

lemma wantsMore_elapsed: "wantsMore be st rcv w \<Longrightarrow> now w - st \<le> maxDurationMs be"
  by (auto simp: wantsMore_def)

lemma readData_overrun:
  "readData be st rcv ce w = Done r w' \<Longrightarrow>
     w' = w \<or> (\<exists>used. replies w = used @ replies w' \<and> used \<noteq> []
                 \<and> now w' - st \<le> maxDurationMs be + lastTurn (last used) (naps w))"
proof (induction "length (replies w)" arbitrary: w rcv ce rule: less_induct)
  case less
  show ?case
  proof (cases rule: readData_cases[of be st rcv w ce])
    case idle
    with less.prems show ?thesis by simp
  next
    case starved
    with less.prems show ?thesis by simp
  next
    case (failed w1)
    from read_Some[OF failed(2)] obtain s where
      s: "replies w = s # replies w1" "outcome s = Failed" "now w1 = now w + int (took s)"
      by blast
    have st: "stall s" using s(2) by (simp add: stall_def)
    note np = read_naps[OF failed(2)]
    let ?w2 = "sleep 250 w1"
    from less.hyps[of ?w2 rcv ce] read_shrinks[OF failed(2)] failed(3) less.prems
    consider (stop) "w' = ?w2"
      | (on) used where "replies ?w2 = used @ replies w'" "used \<noteq> []"
          "now w' - st \<le> maxDurationMs be + lastTurn (last used) (naps ?w2)"
      by auto
    then show ?thesis
    proof cases
      case stop
      have "now w' - st \<le> maxDurationMs be + lastTurn s (naps w)"
        using sleep_late[of 250 w1] wantsMore_elapsed[OF failed(1)] s(3) st np stop
        by (simp add: lastTurn_def)
      with stop s(1) show ?thesis
        by (intro disjI2 exI[of _ "[s]"]) simp
    next
      case on
      have "lastTurn (last used) (naps ?w2) \<le> lastTurn (last used) (naps w)"
        using sleep_naps[of 250 w1] np by (simp add: lastTurn_def)
      with on s(1) show ?thesis
        by (intro disjI2 exI[of _ "s # used"]) simp
    qed
  next
    case (data c w1)
    from read_Some[OF data(2)] obtain s where
      s: "replies w = s # replies w1" "outcome s = Resolved (Some c)" "now w1 = now w + int (took s)"
      by blast
    have st: "\<not> stall s" using s(2) data(3) by (simp add: stall_def)
    note np = read_naps[OF data(2)]
    from less.hyps[of w1 "rcv @ c" 0] read_shrinks[OF data(2)] data(4) less.prems
    consider (stop) "w' = w1"
      | (on) used where "replies w1 = used @ replies w'" "used \<noteq> []"
          "now w' - st \<le> maxDurationMs be + lastTurn (last used) (naps w1)"
      by auto
    then show ?thesis
    proof cases
      case stop
      have "now w' - st \<le> maxDurationMs be + lastTurn s (naps w)"
        using wantsMore_elapsed[OF data(1)] s(3) st stop
        by (simp add: lastTurn_def)
      with stop s(1) show ?thesis
        by (intro disjI2 exI[of _ "[s]"]) simp
    next
      case on
      with s(1) np show ?thesis
        by (intro disjI2 exI[of _ "s # used"]) simp
    qed
  next
    case (empty chunk w1)
    let ?ms = "min (200 + (ce + 1) * 50) 500"
    from read_Some[OF empty(2)] obtain s where
      s: "replies w = s # replies w1" "outcome s = Resolved chunk" "now w1 = now w + int (took s)"
      by blast
    have st: "stall s" using s(2) empty(3) by (auto simp: stall_def)
    note np = read_naps[OF empty(2)]
    let ?w2 = "sleep ?ms w1"
    from less.hyps[of ?w2 rcv "ce + 1"] read_shrinks[OF empty(2)] empty(4) less.prems
    consider (stop) "w' = ?w2"
      | (on) used where "replies ?w2 = used @ replies w'" "used \<noteq> []"
          "now w' - st \<le> maxDurationMs be + lastTurn (last used) (naps ?w2)"
      by auto
    then show ?thesis
    proof cases
      case stop
      have ms: "int ?ms \<le> 500" by simp
      have "now w' - st \<le> maxDurationMs be + lastTurn s (naps w)"
        using sleep_late[of ?ms w1] wantsMore_elapsed[OF empty(1)] s(3) st np stop ms
        by (simp add: lastTurn_def)
      with stop s(1) show ?thesis
        by (intro disjI2 exI[of _ "[s]"]) simp
    next
      case on
      have "lastTurn (last used) (naps ?w2) \<le> lastTurn (last used) (naps w)"
        using sleep_naps[of ?ms w1] np by (simp add: lastTurn_def)
      with on s(1) show ?thesis
        by (intro disjI2 exI[of _ "s # used"]) simp
    qed
  qed
qed

lemmas sample_read = readData.simps readCharacteristic_def settle_def sleep_def deliver_def
  onRxNotify_def maxDurationMs_def quiet_def yields_def Let_def

text \<open>
  C8, as the code has it. The read loop tests its budget at the top of each turn and
  nowhere else. It issues a read only while its test holds: in known-length mode while
  fewer than \<open>expectedLength\<close> octets are in and no more than 20000 ms have passed since
  the loop began, in best-effort mode while fewer than 5000 ms have passed; when the test
  fails it returns at once. So every read of a finished loop was issued within the budget,
  the loop ends with its test false, and it ends no later than the budget plus its last
  turn: the time the last read took and, when that read was empty or failed, the back-off
  sleep after it (at most 500 ms, and the lag of the timer). The sleeps it takes are those
  of the back-off policy. It never throws, and it can be left waiting for a read only by a
  script with at most \<open>maxDurationMs div 250 + 1\<close> empty or failed reads (and, when every
  read takes at least a millisecond, at most \<open>maxDurationMs + 1\<close> reads in all): however
  many empty reads and errors the peer has in store, the loop ends.
\<close>

theorem read_loop_bounded:
  "(wantsMore False st rcv w \<longleftrightarrow> length rcv < expectedLength w \<and> now w - st \<le> 20000)
   \<and> (wantsMore True st rcv w \<longleftrightarrow> now w - st < 5000)
   \<and> (\<not> wantsMore be st rcv w \<longrightarrow> readData be st rcv ce w = Done rcv w)
   \<and> (readData be st rcv ce w = Done r w' \<longrightarrow>
        \<not> wantsMore be st r w'
        \<and> (\<forall>x\<in>set (reads (since w w')). inBudget be st x)
        \<and> (\<exists>used. replies w = used @ replies w'
              \<and> sleeps (since w w') = backoffPolicy ce (map outcome used))
        \<and> (w' = w \<or>
             (\<exists>used. replies w = used @ replies w' \<and> used \<noteq> []
                \<and> now w' - st \<le> maxDurationMs be + lastTurn (last used) (naps w))))
   \<and> (readData be st rcv ce v = Pending \<and> st \<le> now v \<longrightarrow>
        length (filter stall (replies v)) \<le> nat (maxDurationMs be) div 250 + 1
        \<and> ((\<forall>s\<in>set (replies v). 0 < took s) \<longrightarrow>
             length (replies v) \<le> nat (maxDurationMs be) + 1))
   \<and> readData be st rcv ce w \<noteq> Thrown e w'
   \<and> lastTurn s ns = int (took s) + (if stall s then 500 + int (worstLag ns) else 0)"
proof (intro conjI impI)
  show "wantsMore False st rcv w \<longleftrightarrow> length rcv < expectedLength w \<and> now w - st \<le> 20000"
    by (rule wantsMore_known)
  show "wantsMore True st rcv w \<longleftrightarrow> now w - st < 5000"
    by (rule wantsMore_bestEffort)
  show "readData be st rcv ce w \<noteq> Thrown e w'"
    by (rule readData_never_throws)
  show "lastTurn s ns = int (took s) + (if stall s then 500 + int (worstLag ns) else 0)"
    by (rule lastTurn_def)
next
  assume "\<not> wantsMore be st rcv w"
  then show "readData be st rcv ce w = Done rcv w"
    by (rule readData_idle)
next
  assume d: "readData be st rcv ce w = Done r w'"
  from readData_done_since[OF d]
  show "\<not> wantsMore be st r w'"
    and "\<forall>x\<in>set (reads (since w w')). inBudget be st x"
    and "\<exists>used. replies w = used @ replies w'
              \<and> sleeps (since w w') = backoffPolicy ce (map outcome used)"
    by simp_all
  from d show "w' = w \<or>
      (\<exists>used. replies w = used @ replies w' \<and> used \<noteq> []
         \<and> now w' - st \<le> maxDurationMs be + lastTurn (last used) (naps w))"
    by (rule readData_overrun)
next
  assume p: "readData be st rcv ce v = Pending \<and> st \<le> now v"
  then show "length (filter stall (replies v)) \<le> nat (maxDurationMs be) div 250 + 1"
    using readData_pending_stalls[of be st rcv ce v] by simp
  assume "\<forall>s\<in>set (replies v). 0 < took s"
  with p show "length (replies v) \<le> nat (maxDurationMs be) + 1"
    using readData_pending_reads[of be st rcv ce v] by simp
qed

theorem read_loop_bounded_witness:
  "readData False 0 [] 0 knownStart = Done [1, 2] knownEnd
   \<and> \<not> wantsMore False 0 [1, 2] knownEnd
   \<and> sleeps (since knownStart knownEnd) = [250, 300]
   \<and> (\<exists>used. replies knownStart = used @ replies knownEnd
         \<and> sleeps (since knownStart knownEnd) = backoffPolicy 0 (map outcome used))
   \<and> readData True 0 [] 0 (startAt [quiet, quiet, quiet]) = Pending
   \<and> 0 \<le> now (startAt [quiet, quiet, quiet])
   \<and> length (filter stall (replies (startAt [quiet, quiet, quiet]))) \<le> nat (maxDurationMs True) div 250 + 1
   \<and> length (replies (startAt [quiet, quiet, quiet])) \<le> nat (maxDurationMs True) + 1
   \<and> knownEnd \<noteq> knownStart
   \<and> (\<exists>used. replies knownStart = used @ replies knownEnd \<and> used \<noteq> []
         \<and> now knownEnd - 0 \<le> maxDurationMs False + lastTurn (last used) (naps knownStart))"
  (is "?D \<and> ?W \<and> ?S \<and> ?U \<and> ?P \<and> ?N \<and> ?L \<and> ?M \<and> ?K \<and> ?B")
proof -
  have d: ?D
    by (simp add: sample_read knownStart_def knownEnd_def)
  have p: ?P
    by (simp add: sample_read startAt_def)
  have n: ?N
    by (simp add: startAt_def)
  have t: "\<forall>s\<in>set (replies (startAt [quiet, quiet, quiet])). 0 < took s"
    by (simp add: startAt_def quiet_def)
  have s: ?S
    by (simp add: since_def knownStart_def knownEnd_def)
  have k: ?K
    by (simp add: knownStart_def knownEnd_def)
  note inst = read_loop_bounded [of 0 "[]" knownStart False 0 "[1, 2]" knownEnd
      "startAt [quiet, quiet, quiet]"]
  note inst2 = read_loop_bounded [of 0 "[]" knownStart True 0 "[1, 2]" knownEnd
      "startAt [quiet, quiet, quiet]"]
  from inst d have w: ?W and u: ?U
    by simp_all
  from inst d k have b: ?B
    by blast
  from inst2 p n t have l: ?L and m: ?M
    by simp_all
  from d w s u p n l m k b show ?thesis
    by simp
qed

text \<open>
  The loop does not end within the budget itself. A best-effort loop whose second read is
  issued at 4999 ms and answered three seconds later ends at 7999 ms, not within 5000 ms.
  A known-length loop still missing an octet at 20000 ms reads once more, sleeps, and
  ends at 20251 ms.
\<close>

theorem read_loop_outlasts_budget:
  "expectedLength overrunStart = 0
   \<and> receive [] overrunStart = Done [0x61, 0x62] overrunEnd
   \<and> now overrunEnd - now overrunStart = 7999
   \<and> \<not> now overrunEnd - now overrunStart \<le> 5000
   \<and> expectedLength lingerStart = 2
   \<and> receive [] lingerStart = Done [1] lingerEnd
   \<and> now lingerEnd - now lingerStart = 20251
   \<and> \<not> now lingerEnd - now lingerStart \<le> 20000"
  by (simp add: receive_def sample_read overrunStart_def overrunEnd_def lingerStart_def
      lingerEnd_def slow_def)

text \<open>
  C10. The mode is computed once, from \<open>expectedLength\<close> as the loop begins. In best-effort
  mode the loop's test is the clock alone, the loop ends only when 5000 ms have passed,
  and it reads the same octets at the same times whether or not notifications change
  \<open>expectedLength\<close> meanwhile.
\<close>

theorem mode_fixed_at_entry:
  "(receive rcv0 w5 = readData (expectedLength w5 = 0) (now w5) rcv0 0 w5)
   \<and> (wantsMore True st rcv w \<longleftrightarrow> now w - st < 5000)
   \<and> (readData True st rcv ce w = Done r w' \<longrightarrow>
        5000 \<le> now w' - st \<and> readData True st rcv ce (deaf n w) = Done r (deaf n w'))"
proof (intro conjI impI)
  show "receive rcv0 w5 = readData (expectedLength w5 = 0) (now w5) rcv0 0 w5"
    by (simp add: receive_def Let_def)
  show "wantsMore True st rcv w \<longleftrightarrow> now w - st < 5000"
    by (rule wantsMore_bestEffort)
next
  assume d: "readData True st rcv ce w = Done r w'"
  then show "5000 \<le> now w' - st"
    by (rule readData_bestEffort_window)
  from d show "readData True st rcv ce (deaf n w) = Done r (deaf n w')"
    by (simp add: readData_deaf mapWorld_def)
qed

theorem mode_fixed_at_entry_witness:
  "expectedLength lateStart = 0
   \<and> receive [] lateStart = Done [0x61, 0x62] lateEnd
   \<and> readData True 0 [] 0 lateStart = Done [0x61, 0x62] lateEnd
   \<and> expectedLength lateEnd = 1
   \<and> 5000 \<le> now lateEnd - 0
   \<and> readData True 0 [] 0 (deaf 0 lateStart) = Done [0x61, 0x62] (deaf 0 lateEnd)"
  (is "?E \<and> ?R \<and> ?D \<and> ?rest")
proof -
  have e: ?E
    by (simp add: lateStart_def)
  have d: ?D
    by (simp add: sample_read lateStart_def lateEnd_def slow_def)
  have n: "now lateStart = 0"
    by (simp add: lateStart_def)
  note inst = mode_fixed_at_entry [of "[]" lateStart 0 "[]" lateStart 0 "[0x61, 0x62]" lateEnd 0]
  from inst e d n show ?thesis
    by (simp add: lateEnd_def)
qed

section \<open>The flush\<close>

lemma drain_cases [case_names idle starved failed empty data]:
  obtains
    (idle) "\<not> (drained < len \<and> now w < dl)" "drain len dl drained w = Done () w"
  | (starved) "drained < len" "now w < dl" "readCharacteristic DataCh w = None"
      "drain len dl drained w = Pending"
  | (failed) w1 where "drained < len" "now w < dl"
      "readCharacteristic DataCh w = Some (Failed, w1)"
      "drain len dl drained w = Thrown Rejected w1"
  | (empty) chunk w1 where "drained < len" "now w < dl"
      "readCharacteristic DataCh w = Some (Resolved chunk, w1)" "chunk = None \<or> chunk = Some []"
      "drain len dl drained w = Done () w1"
  | (data) c w1 where "drained < len" "now w < dl"
      "readCharacteristic DataCh w = Some (Resolved (Some c), w1)" "c \<noteq> []"
      "drain len dl drained w = drain len dl (drained + length c) w1"
proof (cases "drained < len \<and> now w < dl")
  case False
  then have "drain len dl drained w = Done () w"
    by (subst drain.simps) auto
  with False show ?thesis by (rule idle)
next
  case True
  then have c: "drained < len" "now w < dl" by simp_all
  from True have u: "drain len dl drained w =
      (case readCharacteristic DataCh w of
         None \<Rightarrow> Pending
       | Some (Failed, w1) \<Rightarrow> Thrown Rejected w1
       | Some (Resolved chunk, w1) \<Rightarrow>
           (let cLen = (case chunk of None \<Rightarrow> 0 | Some c \<Rightarrow> length c) in
            if cLen = 0 then Done () w1
            else drain len dl (drained + cLen) w1))"
    by (subst drain.simps) auto
  show ?thesis
  proof (cases "readCharacteristic DataCh w")
    case None
    with u c show ?thesis by (intro starved) simp_all
  next
    case (Some a)
    obtain r w1 where a: "a = (r, w1)" by (cases a)
    show ?thesis
    proof (cases r)
      case Failed
      with u c Some a show ?thesis by (intro failed[of w1]) simp_all
    next
      case (Resolved chunk)
      show ?thesis
      proof (cases "chunk = None \<or> chunk = Some []")
        case True
        with u c Some a Resolved show ?thesis
          by (intro empty[of chunk w1]) auto
      next
        case False
        then obtain ch where "chunk = Some ch" "ch \<noteq> []" by auto
        with u c Some a Resolved show ?thesis
          by (intro data[of ch w1]) auto
      qed
    qed
  qed
qed

lemma drainedBy_Nil: "\<not> (drained < len \<and> t < dl) \<Longrightarrow> drainedBy len dl drained [] [] t"
  by (auto simp: drainedBy_def)

lemma drainedBy_stop:
  "drained < len \<Longrightarrow> t < dl \<Longrightarrow> got s = 0 \<Longrightarrow> drainedBy len dl drained [s] [t] t'"
  by (simp add: drainedBy_def)

lemma drainedBy_Cons:
  assumes "drained < len" "t < dl" "0 < got s" "drainedBy len dl (drained + got s) used ts finish"
  shows "drainedBy len dl drained (s # used) (t # ts) finish"
proof (cases used)
  case Nil
  with assms show ?thesis by (auto simp: drainedBy_def)
next
  case (Cons u us)
  with assms show ?thesis by (auto simp: drainedBy_def add.assoc)
qed

lemma drain_trace:
  "finalWorld (drain len dl drained w) = Some w' \<Longrightarrow>
     \<exists>used ts. replies w = used @ replies w' \<and> trace w' = trace w @ dataReads ts
        \<and> drainedBy len dl drained used ts (now w')"
proof (induction "length (replies w)" arbitrary: w drained rule: less_induct)
  case less
  show ?case
  proof (cases rule: drain_cases[of drained len w dl])
    case idle
    with less.prems have "w' = w" by (simp add: finalWorld_def)
    with idle(1) show ?thesis
      by (intro exI[of _ "[]"]) (simp add: dataReads_def drainedBy_Nil)
  next
    case starved
    with less.prems show ?thesis by (simp add: finalWorld_def)
  next
    case (failed w1)
    from read_Some[OF failed(3)] obtain s where
      s: "replies w = s # replies w1" "outcome s = Failed" "trace w1 = trace w @ [(now w, Read DataCh)]"
      by blast
    from failed(4) less.prems have "w' = w1" by (simp add: finalWorld_def)
    with s failed(1,2) show ?thesis
      by (intro exI[of _ "[s]"] exI[of _ "[now w]"])
         (simp add: dataReads_def drainedBy_stop got_def)
  next
    case (empty chunk w1)
    from read_Some[OF empty(3)] obtain s where
      s: "replies w = s # replies w1" "outcome s = Resolved chunk" "trace w1 = trace w @ [(now w, Read DataCh)]"
      by blast
    from empty(5) less.prems have "w' = w1" by (simp add: finalWorld_def)
    moreover from s(2) empty(4) have "got s = 0" by (auto simp: got_def)
    ultimately show ?thesis using s empty(1,2)
      by (intro exI[of _ "[s]"] exI[of _ "[now w]"])
         (simp add: dataReads_def drainedBy_stop)
  next
    case (data c w1)
    from read_Some[OF data(3)] obtain s where
      s: "replies w = s # replies w1" "outcome s = Resolved (Some c)" "trace w1 = trace w @ [(now w, Read DataCh)]"
      by blast
    from s(2) data(4) have g: "got s = length c" "0 < got s" by (simp_all add: got_def)
    from less.hyps[of w1 "drained + length c"] read_shrinks[OF data(3)] data(5) less.prems
    obtain used ts where
      ih: "replies w1 = used @ replies w'" "trace w' = trace w1 @ dataReads ts"
          "drainedBy len dl (drained + length c) used ts (now w')"
      by auto
    from drainedBy_Cons[OF data(1,2) g(2)] ih(3) g(1)
    have "drainedBy len dl drained (s # used) (now w # ts) (now w')" by simp
    with ih(1,2) s(1,3) show ?thesis
      by (intro exI[of _ "s # used"] exI[of _ "now w # ts"]) (simp add: dataReads_def)
  qed
qed


lemma frameOf_zero:
  "frameOf r = 0 \<longleftrightarrow>
     r = Failed \<or> (\<exists>x. r = Resolved x \<and> shortRead x)
     \<or> (\<exists>b. r = Resolved (Some b) \<and> 4 \<le> length b \<and> readUInt32BE b = Inr 0)"
proof (cases r)
  case Failed
  then show ?thesis by (simp add: frameOf_def)
next
  case (Resolved x)
  show ?thesis
  proof (cases x)
    case None
    with Resolved show ?thesis by (simp add: frameOf_def shortRead_def)
  next
    case (Some b)
    show ?thesis
    proof (cases "4 \<le> length b")
      case True
      from readUInt32BE_long[OF True] obtain n where "readUInt32BE b = Inr n" by blast
      with True Some Resolved show ?thesis by (simp add: frameOf_def shortRead_def)
    next
      case False
      with Some Resolved show ?thesis by (simp add: frameOf_def shortRead_def)
    qed
  qed
qed

lemma flush_no_frame:
  assumes "readCharacteristic RxCtl w = Some (r, w1)" "frameOf r = 0"
  shows "flushChannels w = Done () w1"
  using assms
  by (auto simp: flushChannels_def flushBody_def frameOf_def
      split: reply.splits option.splits sum.splits if_splits)

lemma flush_trace:
  assumes "flushChannels w = Done u w'"
  shows "\<exists>s0 used ts. replies w = s0 # used @ replies w'
           \<and> since w w' = (now w, Read RxCtl) # dataReads ts
           \<and> drainedBy (frameOf (outcome s0)) (now w + int (took s0) + 1000) 0 used ts (now w')"
proof -
  from assms obtain r w1 where rd: "readCharacteristic RxCtl w = Some (r, w1)"
    by (cases "readCharacteristic RxCtl w")
       (auto simp: flushChannels_def flushBody_def split: result.splits)
  from read_Some[OF rd] obtain s0 where
    s: "replies w = s0 # replies w1" "outcome s0 = r" "now w1 = now w + int (took s0)"
       "trace w1 = trace w @ [(now w, Read RxCtl)]"
    by blast
  show ?thesis
  proof (cases "frameOf r = 0")
    case True
    from flush_no_frame[OF rd True] assms have "w' = w1" by simp
    with s True show ?thesis
      by (intro exI[of _ s0] exI[of _ "[]"])
         (simp add: since_def dataReads_def drainedBy_Nil)
  next
    case False
    then obtain b where b: "r = Resolved (Some b)" "4 \<le> length b"
      "readUInt32BE b = Inr (frameOf r)"
      by (auto simp: frameOf_def split: reply.splits option.splits sum.splits if_splits)
    from assms rd b False
    have "finalWorld (drain (frameOf r) (now w1 + 1000) 0 w1) = Some w'"
      by (auto simp: flushChannels_def flushBody_def finalWorld_def split: result.splits)
    from drain_trace[OF this] obtain used ts where
      d: "replies w1 = used @ replies w'" "trace w' = trace w1 @ dataReads ts"
         "drainedBy (frameOf r) (now w1 + 1000) 0 used ts (now w')"
      by blast
    from d(2) s(4) have "trace w' = trace w @ ((now w, Read RxCtl) # dataReads ts)" by simp
    from since_append[OF this] d(1,3) s(1,2,3) show ?thesis
      by (intro exI[of _ s0] exI[of _ used] exI[of _ ts]) simp
  qed
qed

lemma flush_twice:
  assumes "readCharacteristic RxCtl w = Some (r, w1)" "frameOf r = 0"
    "readCharacteristic RxCtl w1 = Some (r2, w2)" "frameOf r2 = 0"
  shows "andThen (flushChannels w) (\<lambda>_. flushChannels) = Done () w2
     \<and> since w w2 = [(now w, Read RxCtl), (now w1, Read RxCtl)]"
proof -
  from read_Some[OF assms(1)] read_Some[OF assms(3)]
  have "trace w2 = trace w @ [(now w, Read RxCtl), (now w1, Read RxCtl)]" by auto
  from since_append[OF this] flush_no_frame[OF assms(1,2)] flush_no_frame[OF assms(3,4)]
  show ?thesis by (simp add: andThen_def)
qed

lemma flush_once:
  assumes "readCharacteristic RxCtl w = Some (r, w1)" "frameOf r = 0"
  shows "flushChannels w = Done () w1 \<and> since w w1 = [(now w, Read RxCtl)]"
proof -
  from read_Some[OF assms(1)] have "trace w1 = trace w @ [(now w, Read RxCtl)]" by auto
  from since_append[OF this] flush_no_frame[OF assms] show ?thesis by simp
qed

lemmas sample_flush = flushChannels_def flushBody_def drain.simps readCharacteristic_def
  settle_def deliver_def startAt_def quiet_def yields_def Let_def

text \<open>
  C6. The flush never throws. When it returns it has read RX_CTL exactly once, first, and
  then the data characteristic some number of times: not at all unless the reply
  announced a frame (at least four octets decoding to a positive length), each time
  before the deadline of 1000 ms after the length read and while fewer octets than
  announced were drained, stopping after an empty or failed read. With no frame announced
  the flush is that one read of RX_CTL; two such flushes in a row are two reads of RX_CTL
  and nothing else.
\<close>

theorem flush_is_best_effort:
  "flushChannels w \<noteq> Thrown e w'
   \<and> (flushChannels w = Done u w' \<longrightarrow>
        (\<exists>s0 used ts. replies w = s0 # used @ replies w'
           \<and> since w w' = (now w, Read RxCtl) # dataReads ts
           \<and> drainedBy (frameOf (outcome s0)) (now w + int (took s0) + 1000) 0 used ts (now w')))
   \<and> (readCharacteristic RxCtl v = Some (r, v1) \<and> frameOf r = 0 \<longrightarrow>
        flushChannels v = Done () v1 \<and> since v v1 = [(now v, Read RxCtl)]
        \<and> (readCharacteristic RxCtl v1 = Some (r2, v2) \<and> frameOf r2 = 0 \<longrightarrow>
             andThen (flushChannels v) (\<lambda>_. flushChannels) = Done () v2
             \<and> since v v2 = [(now v, Read RxCtl), (now v1, Read RxCtl)]))
   \<and> (frameOf r = 0 \<longleftrightarrow>
        r = Failed \<or> (\<exists>x. r = Resolved x \<and> shortRead x)
        \<or> (\<exists>b. r = Resolved (Some b) \<and> 4 \<le> length b \<and> readUInt32BE b = Inr 0))"
proof (intro conjI impI)
  show "flushChannels w \<noteq> Thrown e w'"
    by (rule flushChannels_never_throws)
  show "frameOf r = 0 \<longleftrightarrow>
        r = Failed \<or> (\<exists>x. r = Resolved x \<and> shortRead x)
        \<or> (\<exists>b. r = Resolved (Some b) \<and> 4 \<le> length b \<and> readUInt32BE b = Inr 0)"
    by (rule frameOf_zero)
next
  assume "flushChannels w = Done u w'"
  then show "\<exists>s0 used ts. replies w = s0 # used @ replies w'
           \<and> since w w' = (now w, Read RxCtl) # dataReads ts
           \<and> drainedBy (frameOf (outcome s0)) (now w + int (took s0) + 1000) 0 used ts (now w')"
    by (rule flush_trace)
next
  assume a: "readCharacteristic RxCtl v = Some (r, v1) \<and> frameOf r = 0"
  then show "flushChannels v = Done () v1" and "since v v1 = [(now v, Read RxCtl)]"
    using flush_once[of v r v1] by simp_all
  assume b: "readCharacteristic RxCtl v1 = Some (r2, v2) \<and> frameOf r2 = 0"
  with a show "andThen (flushChannels v) (\<lambda>_. flushChannels) = Done () v2"
    and "since v v2 = [(now v, Read RxCtl), (now v1, Read RxCtl)]"
    using flush_twice[of v r v1 r2 v2] by simp_all
qed

theorem flush_is_best_effort_witness:
  "flushChannels (startAt stale) = Done () flushed
   \<and> (\<exists>s0 used ts. replies (startAt stale) = s0 # used @ replies flushed
         \<and> since (startAt stale) flushed = (now (startAt stale), Read RxCtl) # dataReads ts
         \<and> drainedBy (frameOf (outcome s0)) (now (startAt stale) + int (took s0) + 1000) 0 used ts
              (now flushed))
   \<and> since (startAt stale) flushed = [(0, Read RxCtl), (1, Read DataCh), (2, Read DataCh)]
   \<and> readCharacteristic RxCtl (startAt [quiet, quiet]) = Some (Resolved None, polledOnceOfTwo)
   \<and> readCharacteristic RxCtl polledOnceOfTwo = Some (Resolved None, polledTwice)
   \<and> frameOf (Resolved None) = 0
   \<and> flushChannels (startAt [quiet, quiet]) = Done () polledOnceOfTwo
   \<and> andThen (flushChannels (startAt [quiet, quiet])) (\<lambda>_. flushChannels) = Done () polledTwice
   \<and> since (startAt [quiet, quiet]) polledTwice = [(0, Read RxCtl), (1, Read RxCtl)]"
  (is "?F \<and> ?X \<and> ?S \<and> ?R1 \<and> ?R2 \<and> ?Z \<and> ?F1 \<and> ?F2 \<and> ?S2")
proof -
  have f: ?F
    by (simp add: sample_flush stale_def flushed_def)
  have s: ?S
    by (simp add: since_def startAt_def flushed_def)
  have r1: ?R1
    by (simp add: readCharacteristic_def settle_def startAt_def quiet_def polledOnceOfTwo_def)
  have r2: ?R2
    by (simp add: readCharacteristic_def settle_def quiet_def polledOnceOfTwo_def polledTwice_def)
  have z: ?Z
    by (simp add: frameOf_def)
  have n: "now (startAt [quiet, quiet]) = 0" "now polledOnceOfTwo = 1"
    by (simp_all add: startAt_def polledOnceOfTwo_def)
  note inst = flush_is_best_effort [of "startAt stale" Rejected flushed "()"
      "startAt [quiet, quiet]" "Resolved None" polledOnceOfTwo "Resolved None" polledTwice]
  from inst f have x: ?X
    by blast
  from inst r1 r2 z have f1: ?F1 and f2: ?F2
    and s2': "since (startAt [quiet, quiet]) polledTwice =
      [(now (startAt [quiet, quiet]), Read RxCtl), (now polledOnceOfTwo, Read RxCtl)]"
    by blast+
  from s2' n have s2: ?S2
    by simp
  from f x s r1 r2 z f1 f2 s2 show ?thesis
    by simp
qed

section \<open>What each phase writes\<close>

lemma write_Some:
  assumes "characteristic_write c d wo w = Some (r, w1)"
  shows "\<exists>s. replies w = s # replies w1 \<and> outcome s = r \<and> now w1 = now w + int (took s)
           \<and> trace w1 = trace w @ [(now w, Write c d wo)]"
  using settle_Some[of "Write c d wo" w r w1] assms by (auto simp: characteristic_write_def)

lemma write_shrinks:
  "characteristic_write c d wo w = Some (r, w1) \<Longrightarrow> length (replies w1) < length (replies w)"
  by (auto dest: write_Some)

lemma writes_dataReads [simp]: "writes (dataReads ts) = []"
  by (induction ts) (simp_all add: dataReads_def)

lemma now_read: "readCharacteristic c w = Some (r, w1) \<Longrightarrow> now w \<le> now w1"
  by (auto dest: read_Some)

lemma drain_now: "finalWorld (drain len dl drained w) = Some w' \<Longrightarrow> now w \<le> now w'"
proof (induction "length (replies w)" arbitrary: w drained rule: less_induct)
  case less
  show ?case
  proof (cases rule: drain_cases[of drained len w dl])
    case idle
    with less.prems show ?thesis by (simp add: finalWorld_def)
  next
    case starved
    with less.prems show ?thesis by (simp add: finalWorld_def)
  next
    case (failed w1)
    with less.prems now_read[OF failed(3)] show ?thesis by (simp add: finalWorld_def)
  next
    case (empty chunk w1)
    with less.prems now_read[OF empty(3)] show ?thesis by (simp add: finalWorld_def)
  next
    case (data c w1)
    from less.hyps[of w1 "drained + length c"] read_shrinks[OF data(3)] data(5) less.prems
      now_read[OF data(3)]
    show ?thesis by simp
  qed
qed

lemma flush_quiet:
  assumes "flushChannels w = Done u w'"
  shows "\<exists>new. trace w' = trace w @ new \<and> writes new = [] \<and> now w \<le> now w'"
proof -
  from assms obtain r w1 where rd: "readCharacteristic RxCtl w = Some (r, w1)"
    by (cases "readCharacteristic RxCtl w")
       (auto simp: flushChannels_def flushBody_def split: result.splits)
  from read_Some[OF rd] have
    s: "now w \<le> now w1" "trace w1 = trace w @ [(now w, Read RxCtl)]"
    by auto
  show ?thesis
  proof (cases "frameOf r = 0")
    case True
    from flush_no_frame[OF rd True] assms have "w' = w1" by simp
    with s show ?thesis by simp
  next
    case False
    then obtain b where b: "r = Resolved (Some b)" "4 \<le> length b"
      "readUInt32BE b = Inr (frameOf r)"
      by (auto simp: frameOf_def split: reply.splits option.splits sum.splits if_splits)
    from assms rd b False
    have f: "finalWorld (drain (frameOf r) (now w1 + 1000) 0 w1) = Some w'"
      by (auto simp: flushChannels_def flushBody_def finalWorld_def split: result.splits)
    from drain_trace[OF f] obtain ts where "trace w' = trace w1 @ dataReads ts"
      by blast
    with s(2) have "trace w' = trace w @ ((now w, Read RxCtl) # dataReads ts)" by simp
    moreover from drain_now[OF f] s(1) have "now w \<le> now w'" by simp
    ultimately show ?thesis by (intro exI[of _ "(now w, Read RxCtl) # dataReads ts"]) simp
  qed
qed

lemma subscribe_quiet:
  assumes "finalWorld (subscribeNotifications w) = Some w'"
  shows "trace w' = trace w @ [(now w, Subscribe RxCtl)] \<and> now w \<le> now w'"
  using assms
  by (auto simp: subscribeNotifications_def finalWorld_def dest!: settle_Some
      split: option.splits reply.splits)

lemma pollLength_cases [case_names idle starved found again]:
  obtains
    (idle) "\<not> (i \<le> 30 \<and> expectedLength w = 0)" "pollLength i w = Done () w"
  | (starved) "readCharacteristic RxCtl w = None" "pollLength i w = Pending"
  | (found) r w1 n where "readCharacteristic RxCtl w = Some (r, w1)" "0 < n"
      "pollLength i w = Done () (w1\<lparr>expectedLength := n\<rparr>)"
  | (again) r w1 v where "readCharacteristic RxCtl w = Some (r, w1)"
      "v = w1 \<or> v = w1\<lparr>expectedLength := 0\<rparr>"
      "pollLength i w = pollLength (i + 1) (sleep 250 v)"
proof (cases "i \<le> 30 \<and> expectedLength w = 0")
  case False
  then have "pollLength i w = Done () w"
    by (subst pollLength.simps) auto
  with False show ?thesis by (rule idle)
next
  case True
  note c = True
  show ?thesis
  proof (cases "readCharacteristic RxCtl w")
    case None
    with c have "pollLength i w = Pending" by (subst pollLength.simps) simp
    with None show ?thesis by (rule starved)
  next
    case (Some a)
    obtain r w1 where a: "a = (r, w1)" by (cases a)
    with Some have rd: "readCharacteristic RxCtl w = Some (r, w1)" by simp
    consider (sig) b n where "r = Resolved (Some b)" "4 \<le> length b" "readUInt32BE b = Inr n"
      | (nosig) "r = Failed \<or> r = Resolved None \<or> (\<exists>b. r = Resolved (Some b) \<and> \<not> 4 \<le> length b)
          \<or> (\<exists>b e. r = Resolved (Some b) \<and> 4 \<le> length b \<and> readUInt32BE b = Inl e)"
      by (cases r; cases "case r of Resolved x \<Rightarrow> x"; cases "readUInt32BE (the (case r of Resolved x \<Rightarrow> x))")
         auto
    then show ?thesis
    proof cases
      case sig
      show ?thesis
      proof (cases "0 < n")
        case True
        with c rd sig have "pollLength i w = Done () (w1\<lparr>expectedLength := n\<rparr>)"
          by (subst pollLength.simps) (simp add: Let_def)
        with rd True show ?thesis by (rule found)
      next
        case False
        with c rd sig have "pollLength i w = pollLength (i + 1) (sleep 250 (w1\<lparr>expectedLength := 0\<rparr>))"
          by (subst pollLength.simps) (simp add: Let_def)
        with rd show ?thesis by (intro again[of r w1 "w1\<lparr>expectedLength := 0\<rparr>"]) simp_all
      qed
    next
      case nosig
      with c rd have "pollLength i w = pollLength (i + 1) (sleep 250 w1)"
        by (subst pollLength.simps) auto
      with rd show ?thesis by (intro again[of r w1 w1]) simp_all
    qed
  qed
qed

lemma retryPollLength_cases [case_names idle starved again]:
  obtains
    (idle) "\<not> (i \<le> 20 \<and> expectedLength w = 0)" "retryPollLength i w = Done () w"
  | (starved) "readCharacteristic RxCtl w = None" "retryPollLength i w = Pending"
  | (again) r w1 v n where "readCharacteristic RxCtl w = Some (r, w1)"
      "v = w1 \<or> v = w1\<lparr>expectedLength := n\<rparr>"
      "retryPollLength i w = retryPollLength (i + 1) (sleep 100 v)"
proof (cases "i \<le> 20 \<and> expectedLength w = 0")
  case False
  then have "retryPollLength i w = Done () w"
    by (subst retryPollLength.simps) auto
  with False show ?thesis by (rule idle)
next
  case True
  note c = True
  show ?thesis
  proof (cases "readCharacteristic RxCtl w")
    case None
    with c have "retryPollLength i w = Pending" by (subst retryPollLength.simps) simp
    with None show ?thesis by (rule starved)
  next
    case (Some a)
    obtain r w1 where a: "a = (r, w1)" by (cases a)
    with Some have rd: "readCharacteristic RxCtl w = Some (r, w1)" by simp
    consider (sig) b n where "r = Resolved (Some b)" "4 \<le> length b" "readUInt32BE b = Inr n"
      | (nosig) "r = Failed \<or> r = Resolved None \<or> (\<exists>b. r = Resolved (Some b) \<and> \<not> 4 \<le> length b)
          \<or> (\<exists>b e. r = Resolved (Some b) \<and> 4 \<le> length b \<and> readUInt32BE b = Inl e)"
      by (cases r; cases "case r of Resolved x \<Rightarrow> x"; cases "readUInt32BE (the (case r of Resolved x \<Rightarrow> x))")
         auto
    then show ?thesis
    proof cases
      case sig
      with c rd have "retryPollLength i w = retryPollLength (i + 1) (sleep 100 (w1\<lparr>expectedLength := n\<rparr>))"
        by (subst retryPollLength.simps) simp
      with rd show ?thesis by (intro again[of r w1 "w1\<lparr>expectedLength := n\<rparr>" n]) simp_all
    next
      case nosig
      with c rd have "retryPollLength i w = retryPollLength (i + 1) (sleep 100 w1)"
        by (subst retryPollLength.simps) auto
      with rd show ?thesis by (intro again[of r w1 w1]) simp_all
    qed
  qed
qed

lemma written_append [simp]: "written c (a @ b) = written c a @ written c b"
  by (simp add: written_def)

lemma written_quiet: "writes new = [] \<Longrightarrow> written c new = []"
  by (simp add: written_def)

lemma written_chunks:
  "writes new = map (\<lambda>c. (DataCh, c, False)) cs \<Longrightarrow> written TxCtl new = [] \<and> written DataCh new = cs"
proof -
  assume a: "writes new = map (\<lambda>c. (DataCh, c, False)) cs"
  have "filter (\<lambda>x. fst x = TxCtl) (map (\<lambda>c. (DataCh, c, False)) cs) = []"
    by (induction cs) simp_all
  moreover have "filter (\<lambda>x. fst x = DataCh) (map (\<lambda>c. (DataCh, c, False)) cs) = map (\<lambda>c. (DataCh, c, False)) cs"
    by (induction cs) simp_all
  ultimately show ?thesis using a by (simp add: written_def comp_def)
qed

lemma pollLength_quiet:
  "pollLength i w = Done u w' \<Longrightarrow>
     \<exists>new. trace w' = trace w @ new \<and> writes new = [] \<and> now w \<le> now w'"
proof (induction "length (replies w)" arbitrary: w i rule: less_induct)
  case less
  show ?case
  proof (cases rule: pollLength_cases[of i w])
    case idle
    with less.prems show ?thesis by simp
  next
    case starved
    with less.prems show ?thesis by simp
  next
    case (found r w1 n)
    from read_Some[OF found(1)] found(3) less.prems show ?thesis by auto
  next
    case (again r w1 v)
    from read_Some[OF again(1)] have
      s: "now w \<le> now w1" "trace w1 = trace w @ [(now w, Read RxCtl)]"
      by auto
    from again(2) have v: "trace v = trace w1" "now v = now w1" "replies v = replies w1"
      by auto
    from less.hyps[of "sleep 250 v" "i + 1"] read_shrinks[OF again(1)] v(3) again(3) less.prems
    obtain new where
      ih: "trace w' = trace (sleep 250 v) @ new" "writes new = []" "now (sleep 250 v) \<le> now w'"
      by auto
    from ih(1) v(1) s(2) have "trace w' = trace w @ ((now w, Read RxCtl) # (now v, Sleep 250) # new)"
      by simp
    moreover from ih(3) now_sleep[of v 250] v(2) s(1) have "now w \<le> now w'" by simp
    ultimately show ?thesis using ih(2)
      by (intro exI[of _ "(now w, Read RxCtl) # (now v, Sleep 250) # new"]) simp
  qed
qed

lemma retryPollLength_quiet:
  "retryPollLength i w = Done u w' \<Longrightarrow>
     \<exists>new. trace w' = trace w @ new \<and> writes new = [] \<and> now w \<le> now w'"
proof (induction "length (replies w)" arbitrary: w i rule: less_induct)
  case less
  show ?case
  proof (cases rule: retryPollLength_cases[of i w])
    case idle
    with less.prems show ?thesis by simp
  next
    case starved
    with less.prems show ?thesis by simp
  next
    case (again r w1 v n)
    from read_Some[OF again(1)] have
      s: "now w \<le> now w1" "trace w1 = trace w @ [(now w, Read RxCtl)]"
      by auto
    from again(2) have v: "trace v = trace w1" "now v = now w1" "replies v = replies w1"
      by auto
    from less.hyps[of "sleep 100 v" "i + 1"] read_shrinks[OF again(1)] v(3) again(3) less.prems
    obtain new where
      ih: "trace w' = trace (sleep 100 v) @ new" "writes new = []" "now (sleep 100 v) \<le> now w'"
      by auto
    from ih(1) v(1) s(2) have "trace w' = trace w @ ((now w, Read RxCtl) # (now v, Sleep 100) # new)"
      by simp
    moreover from ih(3) now_sleep[of v 100] v(2) s(1) have "now w \<le> now w'" by simp
    ultimately show ?thesis using ih(2)
      by (intro exI[of _ "(now w, Read RxCtl) # (now v, Sleep 100) # new"]) simp
  qed
qed

lemma readData_quiet:
  "readData be st rcv ce w = Done r w' \<Longrightarrow>
     \<exists>new. trace w' = trace w @ new \<and> writes new = [] \<and> now w \<le> now w'"
proof (induction "length (replies w)" arbitrary: w rcv ce rule: less_induct)
  case less
  show ?case
  proof (cases rule: readData_cases[of be st rcv w ce])
    case idle
    with less.prems show ?thesis by simp
  next
    case starved
    with less.prems show ?thesis by simp
  next
    case (failed w1)
    from read_Some[OF failed(2)] have
      s: "now w \<le> now w1" "trace w1 = trace w @ [(now w, Read DataCh)]"
      by auto
    from less.hyps[of "sleep 250 w1" rcv ce] read_shrinks[OF failed(2)] failed(3) less.prems
    obtain new where
      ih: "trace w' = trace (sleep 250 w1) @ new" "writes new = []" "now (sleep 250 w1) \<le> now w'"
      by auto
    from ih(1) s(2) have "trace w' = trace w @ ((now w, Read DataCh) # (now w1, Sleep 250) # new)"
      by simp
    moreover from ih(3) now_sleep[of w1 250] s(1) have "now w \<le> now w'" by simp
    ultimately show ?thesis using ih(2)
      by (intro exI[of _ "(now w, Read DataCh) # (now w1, Sleep 250) # new"]) simp
  next
    case (data c w1)
    from read_Some[OF data(2)] have
      s: "now w \<le> now w1" "trace w1 = trace w @ [(now w, Read DataCh)]"
      by auto
    from less.hyps[of w1 "rcv @ c" 0] read_shrinks[OF data(2)] data(4) less.prems
    obtain new where
      ih: "trace w' = trace w1 @ new" "writes new = []" "now w1 \<le> now w'"
      by auto
    from ih(1) s(2) have "trace w' = trace w @ ((now w, Read DataCh) # new)"
      by simp
    moreover from ih(3) s(1) have "now w \<le> now w'" by simp
    ultimately show ?thesis using ih(2)
      by (intro exI[of _ "(now w, Read DataCh) # new"]) simp
  next
    case (empty chunk w1)
    let ?ms = "min (200 + (ce + 1) * 50) 500"
    from read_Some[OF empty(2)] have
      s: "now w \<le> now w1" "trace w1 = trace w @ [(now w, Read DataCh)]"
      by auto
    from less.hyps[of "sleep ?ms w1" rcv "ce + 1"] read_shrinks[OF empty(2)] empty(4) less.prems
    obtain new where
      ih: "trace w' = trace (sleep ?ms w1) @ new" "writes new = []" "now (sleep ?ms w1) \<le> now w'"
      by auto
    from ih(1) s(2) have "trace w' = trace w @ ((now w, Read DataCh) # (now w1, Sleep ?ms) # new)"
      by simp
    moreover from ih(3) now_sleep[of w1 ?ms] s(1) have "now w \<le> now w'" by simp
    ultimately show ?thesis using ih(2)
      by (intro exI[of _ "(now w, Read DataCh) # (now w1, Sleep ?ms) # new"]) simp
  qed
qed

lemma writeChunks_final:
  "finalWorld (writeChunks mtu bs off w) = Some w' \<Longrightarrow>
     \<exists>new cs. trace w' = trace w @ new \<and> writes new = map (\<lambda>c. (DataCh, c, False)) cs
        \<and> now w \<le> now w'"
proof (induction "length (replies w)" arbitrary: w off rule: less_induct)
  case less
  show ?case
  proof (cases "off < length bs")
    case False
    then have "writeChunks mtu bs off w = Done () w" by (subst writeChunks.simps) simp
    with less.prems have "w' = w" by (simp add: finalWorld_def)
    then show ?thesis by (intro exI[of _ "[]"]) simp
  next
    case True
    let ?c = "slice bs off (off + mtu)"
    from True less.prems obtain r w1 where
      wr: "characteristic_write DataCh ?c False w = Some (r, w1)"
      by (subst (asm) writeChunks.simps)
         (auto simp: finalWorld_def writeWithResponse_def split: option.splits)
    from write_Some[OF wr] have
      s: "now w \<le> now w1" "trace w1 = trace w @ [(now w, Write DataCh ?c False)]"
      by auto
    show ?thesis
    proof (cases r)
      case Failed
      with True wr have "writeChunks mtu bs off w = Thrown Rejected w1"
        by (subst writeChunks.simps) (simp add: writeWithResponse_def)
      with less.prems have "w' = w1" by (simp add: finalWorld_def)
      with s show ?thesis
        by (intro exI[of _ "[(now w, Write DataCh ?c False)]"] exI[of _ "[?c]"]) simp
    next
      case (Resolved x)
      with True wr have "writeChunks mtu bs off w = writeChunks mtu bs (off + mtu) (sleep 15 w1)"
        by (subst writeChunks.simps) (simp add: writeWithResponse_def)
      with less.hyps[of "sleep 15 w1" "off + mtu"] write_shrinks[OF wr] less.prems
      obtain new cs where
        ih: "trace w' = trace (sleep 15 w1) @ new" "writes new = map (\<lambda>c. (DataCh, c, False)) cs"
            "now (sleep 15 w1) \<le> now w'"
        by auto
      from ih(1) s(2) have
        "trace w' = trace w @ ((now w, Write DataCh ?c False) # (now w1, Sleep 15) # new)"
        by simp
      moreover from ih(3) now_sleep[of w1 15] s(1) have "now w \<le> now w'" by simp
      ultimately show ?thesis using ih(2)
        by (intro exI[of _ "(now w, Write DataCh ?c False) # (now w1, Sleep 15) # new"]
            exI[of _ "?c # cs"]) simp
    qed
  qed
qed

lemma retryWriteChunks_final:
  "finalWorld (retryWriteChunks mtu bs off w) = Some w' \<Longrightarrow>
     \<exists>new cs. trace w' = trace w @ new \<and> writes new = map (\<lambda>c. (DataCh, c, False)) cs
        \<and> now w \<le> now w'"
proof (induction "length (replies w)" arbitrary: w off rule: less_induct)
  case less
  show ?case
  proof (cases "off < length bs")
    case False
    then have "retryWriteChunks mtu bs off w = Done () w" by (subst retryWriteChunks.simps) simp
    with less.prems have "w' = w" by (simp add: finalWorld_def)
    then show ?thesis by (intro exI[of _ "[]"]) simp
  next
    case True
    let ?c = "slice bs off (off + mtu)"
    from True less.prems obtain r w1 where
      wr: "characteristic_write DataCh ?c False w = Some (r, w1)"
      by (subst (asm) retryWriteChunks.simps)
         (auto simp: finalWorld_def split: option.splits)
    from write_Some[OF wr] have
      s: "now w \<le> now w1" "trace w1 = trace w @ [(now w, Write DataCh ?c False)]"
      by auto
    show ?thesis
    proof (cases r)
      case Failed
      with True wr have "retryWriteChunks mtu bs off w = Thrown Rejected w1"
        by (subst retryWriteChunks.simps) simp
      with less.prems have "w' = w1" by (simp add: finalWorld_def)
      with s show ?thesis
        by (intro exI[of _ "[(now w, Write DataCh ?c False)]"] exI[of _ "[?c]"]) simp
    next
      case (Resolved x)
      with True wr have "retryWriteChunks mtu bs off w = retryWriteChunks mtu bs (off + mtu) (sleep 25 w1)"
        by (subst retryWriteChunks.simps) simp
      with less.hyps[of "sleep 25 w1" "off + mtu"] write_shrinks[OF wr] less.prems
      obtain new cs where
        ih: "trace w' = trace (sleep 25 w1) @ new" "writes new = map (\<lambda>c. (DataCh, c, False)) cs"
            "now (sleep 25 w1) \<le> now w'"
        by auto
      from ih(1) s(2) have
        "trace w' = trace w @ ((now w, Write DataCh ?c False) # (now w1, Sleep 25) # new)"
        by simp
      moreover from ih(3) now_sleep[of w1 25] s(1) have "now w \<le> now w'" by simp
      ultimately show ?thesis using ih(2)
        by (intro exI[of _ "(now w, Write DataCh ?c False) # (now w1, Sleep 25) # new"]
            exI[of _ "?c # cs"]) simp
    qed
  qed
qed

text \<open>A transmission, however it ends: at most one length frame; when it completes, exactly
  one, the payload in full, and at least the settle time on the clock.\<close>

lemma transmit_final:
  assumes "finalWorld (transmit bs w) = Some w' \<or> finalWorld (retransmit bs w) = Some w'"
  shows "\<exists>new. trace w' = trace w @ new \<and> length (written TxCtl new) \<le> 1 \<and> now w \<le> now w'"
proof (cases "writeUInt32BE (length bs)")
  case (Inl e)
  with assms have "w' = w" by (auto simp: transmit_def retransmit_def finalWorld_def)
  then show ?thesis by (intro exI[of _ "[]"]) (simp add: written_def)
next
  case (Inr lenBuf)
  with assms obtain r w1 where
    wr: "characteristic_write TxCtl lenBuf False w = Some (r, w1)"
    by (auto simp: transmit_def retransmit_def finalWorld_def writeWithResponse_def
        split: option.splits)
  from write_Some[OF wr] have
    s: "now w \<le> now w1" "trace w1 = trace w @ [(now w, Write TxCtl lenBuf False)]"
    by auto
  show ?thesis
  proof (cases r)
    case Failed
    with Inr wr assms have "w' = w1"
      by (auto simp: transmit_def retransmit_def finalWorld_def writeWithResponse_def)
    with s show ?thesis
      by (intro exI[of _ "[(now w, Write TxCtl lenBuf False)]"]) (simp add: written_def)
  next
    case (Resolved x)
    with Inr wr assms have
      "finalWorld (writeChunks MTU_CHUNK bs 0 (sleep 1000 w1)) = Some w'
       \<or> finalWorld (retryWriteChunks MTU_CHUNK bs 0 (sleep 500 w1)) = Some w'"
      by (auto simp: transmit_def retransmit_def writeWithResponse_def)
    then obtain ms new cs where
      ih: "trace w' = trace (sleep ms w1) @ new" "writes new = map (\<lambda>c. (DataCh, c, False)) cs"
          "now (sleep ms w1) \<le> now w'"
      using writeChunks_final[of MTU_CHUNK bs 0 "sleep 1000 w1" w']
        retryWriteChunks_final[of MTU_CHUNK bs 0 "sleep 500 w1" w']
      by blast
    from ih(1) s(2) have
      t: "trace w' = trace w @ ((now w, Write TxCtl lenBuf False) # (now w1, Sleep ms) # new)"
      by simp
    from ih(3) now_sleep[of w1 ms] s(1) have n: "now w \<le> now w'" by simp
    from written_chunks[OF ih(2)] have
      "written TxCtl ((now w, Write TxCtl lenBuf False) # (now w1, Sleep ms) # new) = [lenBuf]"
      by (simp add: written_def)
    with t n show ?thesis
      by (intro exI[of _ "(now w, Write TxCtl lenBuf False) # (now w1, Sleep ms) # new"]) simp
  qed
qed

lemma transmit_done:
  assumes "transmit bs w = Done u w'"
  shows "\<exists>new. trace w' = trace w @ new \<and> length (written TxCtl new) = 1
          \<and> concat (written DataCh new) = bs \<and> now w + 1000 \<le> now w'"
proof -
  from assms obtain lenBuf r w1 where
    lb: "writeUInt32BE (length bs) = Inr lenBuf"
    and wr: "characteristic_write TxCtl lenBuf False w = Some (Resolved r, w1)"
    and ch: "writeChunks MTU_CHUNK bs 0 (sleep 1000 w1) = Done u w'"
    by (auto simp: transmit_def writeWithResponse_def split: sum.splits option.splits reply.splits)
  from write_Some[OF wr] have
    s: "now w \<le> now w1" "trace w1 = trace w @ [(now w, Write TxCtl lenBuf False)]"
    by auto
  from writeChunks_trace[OF ch] obtain new cs where
    n: "trace w' = trace (sleep 1000 w1) @ new" "writes new = map (\<lambda>c. (DataCh, c, False)) cs"
       "concat cs = drop 0 bs"
    by (auto simp: MTU_CHUNK_def)
  from ch have "finalWorld (writeChunks MTU_CHUNK bs 0 (sleep 1000 w1)) = Some w'"
    by (simp add: finalWorld_def)
  from writeChunks_final[OF this] have "now (sleep 1000 w1) \<le> now w'" by blast
  with now_sleep[of w1 1000] s(1) have t: "now w + 1000 \<le> now w'" by simp
  let ?new = "(now w, Write TxCtl lenBuf False) # (now w1, Sleep 1000) # new"
  from n(1) s(2) have e: "trace w' = trace w @ ?new" by simp
  have "writes ?new = (TxCtl, lenBuf, False) # map (\<lambda>c. (DataCh, c, False)) cs"
    using n(2) by simp
  from written_frame_chunks[OF this] n(3) e t show ?thesis
    by (intro exI[of _ ?new]) simp
qed

lemma retransmit_done:
  assumes "retransmit bs w = Done u w'"
  shows "\<exists>new. trace w' = trace w @ new \<and> length (written TxCtl new) = 1
          \<and> concat (written DataCh new) = bs \<and> now w + 500 \<le> now w'"
proof -
  from assms obtain lenBuf r w1 where
    lb: "writeUInt32BE (length bs) = Inr lenBuf"
    and wr: "characteristic_write TxCtl lenBuf False w = Some (Resolved r, w1)"
    and ch: "retryWriteChunks MTU_CHUNK bs 0 (sleep 500 w1) = Done u w'"
    by (auto simp: retransmit_def writeWithResponse_def split: sum.splits option.splits reply.splits)
  from write_Some[OF wr] have
    s: "now w \<le> now w1" "trace w1 = trace w @ [(now w, Write TxCtl lenBuf False)]"
    by auto
  from retryWriteChunks_trace[OF ch] obtain new cs where
    n: "trace w' = trace (sleep 500 w1) @ new" "writes new = map (\<lambda>c. (DataCh, c, False)) cs"
       "concat cs = drop 0 bs"
    by (auto simp: MTU_CHUNK_def)
  from ch have "finalWorld (retryWriteChunks MTU_CHUNK bs 0 (sleep 500 w1)) = Some w'"
    by (simp add: finalWorld_def)
  from retryWriteChunks_final[OF this] have "now (sleep 500 w1) \<le> now w'" by blast
  with now_sleep[of w1 500] s(1) have t: "now w + 500 \<le> now w'" by simp
  let ?new = "(now w, Write TxCtl lenBuf False) # (now w1, Sleep 500) # new"
  from n(1) s(2) have e: "trace w' = trace w @ ?new" by simp
  have "writes ?new = (TxCtl, lenBuf, False) # map (\<lambda>c. (DataCh, c, False)) cs"
    using n(2) by simp
  from written_frame_chunks[OF this] n(3) e t show ?thesis
    by (intro exI[of _ ?new]) simp
qed

section \<open>The exchange as a whole\<close>

lemma andThen_final:
  "finalWorld (andThen r k) = Some w' \<Longrightarrow>
     (\<exists>e. r = Thrown e w') \<or> (\<exists>x w. r = Done x w \<and> finalWorld (k x w) = Some w')"
  by (cases r) (simp_all add: andThen_def finalWorld_def)

lemma final_Done: "finalWorld (Done x w) = Some w' \<longleftrightarrow> w' = w"
  by (auto simp: finalWorld_def)

lemma final_cases:
  assumes "finalWorld r = Some w'"
  obtains (threw) e where "r = Thrown e w'" | (returned) x where "r = Done x w'"
  using assms by (auto simp: finalWorld_def split: result.splits)

lemma transmit_final_fits:
  assumes "finalWorld (transmit bs w) = Some w' \<or> finalWorld (retransmit bs w) = Some w'" "fits bs"
  shows "\<exists>new. trace w' = trace w @ new \<and> length (written TxCtl new) = 1"
proof -
  from assms(2) obtain lenBuf where Inr: "writeUInt32BE (length bs) = Inr lenBuf"
    by (auto simp: fits_def writeUInt32BE_def)
  with assms obtain r w1 where
    wr: "characteristic_write TxCtl lenBuf False w = Some (r, w1)"
    by (auto simp: transmit_def retransmit_def finalWorld_def writeWithResponse_def
        split: option.splits)
  from write_Some[OF wr] have
    s: "trace w1 = trace w @ [(now w, Write TxCtl lenBuf False)]"
    by auto
  show ?thesis
  proof (cases r)
    case Failed
    with Inr wr assms have "w' = w1"
      by (auto simp: transmit_def retransmit_def finalWorld_def writeWithResponse_def)
    with s show ?thesis
      by (intro exI[of _ "[(now w, Write TxCtl lenBuf False)]"]) (simp add: written_def)
  next
    case (Resolved x)
    with Inr wr assms have
      "finalWorld (writeChunks MTU_CHUNK bs 0 (sleep 1000 w1)) = Some w'
       \<or> finalWorld (retryWriteChunks MTU_CHUNK bs 0 (sleep 500 w1)) = Some w'"
      by (auto simp: transmit_def retransmit_def writeWithResponse_def)
    then obtain ms new cs where
      ih: "trace w' = trace (sleep ms w1) @ new" "writes new = map (\<lambda>c. (DataCh, c, False)) cs"
      using writeChunks_final[of MTU_CHUNK bs 0 "sleep 1000 w1" w']
        retryWriteChunks_final[of MTU_CHUNK bs 0 "sleep 500 w1" w']
      by blast
    from ih(1) s have
      t: "trace w' = trace w @ ((now w, Write TxCtl lenBuf False) # (now w1, Sleep ms) # new)"
      by simp
    from written_chunks[OF ih(2)] have
      "written TxCtl ((now w, Write TxCtl lenBuf False) # (now w1, Sleep ms) # new) = [lenBuf]"
      by (simp add: written_def)
    with t show ?thesis
      by (intro exI[of _ "(now w, Write TxCtl lenBuf False) # (now w1, Sleep ms) # new"]) simp
  qed
qed

lemma firstAttempt_done:
  assumes "firstAttempt rt m p w0 = Done u w4"
  shows "\<exists>new t1. trace w4 = trace w0 @ new \<and> length (written TxCtl new) = 1
          \<and> concat (written DataCh new) = requestBytes rt t1 m p \<and> t1 + 1000 \<le> now w4"
proof -
  from assms obtain w1 w2 w3 where
    f: "flushChannels w0 = Done () w1"
    and sb: "subscribeNotifications (w1\<lparr>expectedLength := 0\<rparr>) = Done () w2"
    and sr: "transmit (requestBytes rt (now w2) m p) w2 = Done () w3"
    and pl: "pollLength 1 w3 = Done u w4"
    unfolding firstAttempt_def sendRequest_def
    by (auto dest!: andThen_Done)
  from flush_quiet[OF f] obtain n1 where
    n1: "trace w1 = trace w0 @ n1" "writes n1 = []"
    by blast
  from sb have "finalWorld (subscribeNotifications (w1\<lparr>expectedLength := 0\<rparr>)) = Some w2"
    by (simp add: finalWorld_def)
  from subscribe_quiet[OF this] have
    n2: "trace w2 = trace w1 @ [(now w1, Subscribe RxCtl)]"
    by simp
  from transmit_done[OF sr] obtain n3 where
    n3: "trace w3 = trace w2 @ n3" "length (written TxCtl n3) = 1"
        "concat (written DataCh n3) = requestBytes rt (now w2) m p" "now w2 + 1000 \<le> now w3"
    by blast
  from pollLength_quiet[OF pl] obtain n4 where
    n4: "trace w4 = trace w3 @ n4" "writes n4 = []" "now w3 \<le> now w4"
    by blast
  let ?new = "n1 @ (now w1, Subscribe RxCtl) # n3 @ n4"
  have q: "written TxCtl [(now w1, Subscribe RxCtl)] = []" "written DataCh [(now w1, Subscribe RxCtl)] = []"
    by (simp_all add: written_def)
  have e: "trace w4 = trace w0 @ ?new"
    using n1(1) n2 n3(1) n4(1) by simp
  have "written TxCtl ?new = written TxCtl n3" "written DataCh ?new = written DataCh n3"
    using written_quiet[OF n1(2)] written_quiet[OF n4(2)] q
      written_append[of _ n1 "(now w1, Subscribe RxCtl) # n3 @ n4"]
      written_append[of _ "[(now w1, Subscribe RxCtl)]" "n3 @ n4"]
    by simp_all
  with e n3(2,3,4) n4(3) show ?thesis
    by (intro exI[of _ ?new] exI[of _ "now w2"]) simp
qed

lemma firstAttempt_final:
  assumes "finalWorld (firstAttempt rt m p w0) = Some w'"
  shows "\<exists>new. trace w' = trace w0 @ new \<and> length (written TxCtl new) \<le> 1"
  using assms
proof (cases rule: final_cases)
  case (returned x)
  from firstAttempt_done[OF returned] show ?thesis by auto
next
  case (threw e)
  then consider
    (sub) w1 where "flushChannels w0 = Done () w1"
      "subscribeNotifications (w1\<lparr>expectedLength := 0\<rparr>) = Thrown e w'"
    | (send) w1 w2 where "flushChannels w0 = Done () w1"
      "subscribeNotifications (w1\<lparr>expectedLength := 0\<rparr>) = Done () w2"
      "transmit (requestBytes rt (now w2) m p) w2 = Thrown e w'"
    unfolding firstAttempt_def sendRequest_def
    by (auto dest!: andThen_Thrown
        dest: flushChannels_never_throws[THEN notE] pollLength_never_throws[THEN notE])
  then show ?thesis
  proof cases
    case sub
    from flush_quiet[OF sub(1)] obtain n1 where
      n1: "trace w1 = trace w0 @ n1" "writes n1 = []"
      by blast
    from sub(2) have "finalWorld (subscribeNotifications (w1\<lparr>expectedLength := 0\<rparr>)) = Some w'"
      by (simp add: finalWorld_def)
    from subscribe_quiet[OF this] n1 have
      "trace w' = trace w0 @ (n1 @ [(now w1, Subscribe RxCtl)])"
      "writes (n1 @ [(now w1, Subscribe RxCtl)]) = []"
      by simp_all
    then show ?thesis
      by (intro exI[of _ "n1 @ [(now w1, Subscribe RxCtl)]"]) (simp add: written_quiet)
  next
    case send
    from flush_quiet[OF send(1)] obtain n1 where
      n1: "trace w1 = trace w0 @ n1" "writes n1 = []"
      by blast
    from send(2) have "finalWorld (subscribeNotifications (w1\<lparr>expectedLength := 0\<rparr>)) = Some w2"
      by (simp add: finalWorld_def)
    from subscribe_quiet[OF this] have
      n2: "trace w2 = trace w1 @ [(now w1, Subscribe RxCtl)]"
      by simp
    from send(3) have "finalWorld (transmit (requestBytes rt (now w2) m p) w2) = Some w'"
      by (simp add: finalWorld_def)
    then obtain n3 where
      n3: "trace w' = trace w2 @ n3" "length (written TxCtl n3) \<le> 1"
      using transmit_final[of "requestBytes rt (now w2) m p" w2 w'] by blast
    have q: "written TxCtl [(now w1, Subscribe RxCtl)] = []"
      by (simp add: written_def)
    let ?new = "n1 @ (now w1, Subscribe RxCtl) # n3"
    have "trace w' = trace w0 @ ?new"
      using n1(1) n2 n3(1) by simp
    moreover have "written TxCtl ?new = written TxCtl n3"
      using written_quiet[OF n1(2)] q
        written_append[of _ n1 "(now w1, Subscribe RxCtl) # n3"]
        written_append[of _ "[(now w1, Subscribe RxCtl)]" n3]
      by simp
    ultimately show ?thesis using n3(2)
      by (intro exI[of _ ?new]) simp
  qed
qed

lemma decode_ext:
  assumes "finalWorld (decodeResponse rt r w) = Some w'"
  shows "\<exists>new. trace w' = trace w @ new \<and> writes new = []"
  using assms
  by (auto simp: decodeResponse_def Let_def finalWorld_def split: sum.splits if_splits)

lemma tail_final:
  assumes "finalWorld (andThen (receive rcv w5)
             (\<lambda>r w6. decodeResponse rt r (unsubscribeRxNotify w6))) = Some w'"
  shows "\<exists>new. trace w' = trace w5 @ new \<and> writes new = []"
proof -
  from andThen_final[OF assms] receive_never_throws obtain r w6 where
    rc: "receive rcv w5 = Done r w6"
    and dc: "finalWorld (decodeResponse rt r (unsubscribeRxNotify w6)) = Some w'"
    by blast
  from rc have "readData (expectedLength w5 = 0) (now w5) rcv 0 w5 = Done r w6"
    by (simp add: receive_def Let_def)
  from readData_quiet[OF this] obtain n1 where
    n1: "trace w6 = trace w5 @ n1" "writes n1 = []"
    by blast
  from decode_ext[OF dc] obtain n3 where
    n3: "trace w' = trace (unsubscribeRxNotify w6) @ n3" "writes n3 = []"
    by blast
  have "trace w' = trace w5 @ (n1 @ (now w6, Unsubscribe RxCtl) # n3)"
    using n1(1) n3(1) by (simp add: unsubscribeRxNotify_def)
  moreover have "writes (n1 @ (now w6, Unsubscribe RxCtl) # n3) = []"
    using n1(2) n3(2) by simp
  ultimately show ?thesis by blast
qed

lemma retryOnce_final:
  assumes "finalWorld (retryOnce rt m p rcv w4) = Some w'"
  shows "\<exists>new. trace w' = trace w4 @ new \<and> length (written TxCtl new) \<le> 1
          \<and> (written TxCtl new \<noteq> [] \<longrightarrow> expectedLength w4 = 0 \<and> rcv = [])
          \<and> (expectedLength w4 = 0 \<and> rcv = [] \<and> fits (requestBytes rt (now w4) m p) \<longrightarrow>
               length (written TxCtl new) = 1)"
proof (cases "expectedLength w4 = 0 \<and> length rcv = 0")
  case False
  with assms have "w' = w4" by (auto simp: retryOnce_def finalWorld_def)
  with False show ?thesis
    by (intro exI[of _ "[]"]) (auto simp: written_def)
next
  case True
  let ?v = "w4\<lparr>expectedLength := 0\<rparr>"
  let ?bs = "requestBytes rt (now w4) m p"
  have v: "trace ?v = trace w4" "now ?v = now w4" by simp_all
  from True assms have
    a: "finalWorld (andThen (retransmit ?bs ?v) (\<lambda>_ w. retryPollLength 1 w)) = Some w'"
    by (simp add: retryOnce_def resendRequest_def)
  from andThen_final[OF a] consider
    (threw) e where "retransmit ?bs ?v = Thrown e w'"
    | (went) x w5 where "retransmit ?bs ?v = Done x w5" "finalWorld (retryPollLength 1 w5) = Some w'"
    by blast
  then show ?thesis
  proof cases
    case threw
    then have f: "finalWorld (retransmit ?bs ?v) = Some w'" by (simp add: finalWorld_def)
    then obtain new where
      n: "trace w' = trace ?v @ new" "length (written TxCtl new) \<le> 1"
      using transmit_final[of ?bs ?v w'] by blast
    have "fits ?bs \<longrightarrow> length (written TxCtl new) = 1"
    proof
      assume "fits ?bs"
      with f obtain new' where "trace w' = trace ?v @ new'" "length (written TxCtl new') = 1"
        using transmit_final_fits[of ?bs ?v w'] by blast
      with n(1) show "length (written TxCtl new) = 1" by simp
    qed
    with n True show ?thesis
      by (intro exI[of _ new]) simp
  next
    case went
    from transmit_final_fits[of ?bs ?v w5] retransmit_done[OF went(1)] obtain n1 where
      n1: "trace w5 = trace ?v @ n1" "length (written TxCtl n1) = 1"
      by blast
    from went(2) retryPollLength_never_throws obtain u where "retryPollLength 1 w5 = Done u w'"
      by (cases "retryPollLength 1 w5") (auto simp: finalWorld_def)
    from retryPollLength_quiet[OF this] obtain n2 where
      n2: "trace w' = trace w5 @ n2" "writes n2 = []"
      by blast
    have "trace w' = trace w4 @ (n1 @ n2)" using n1(1) n2(1) by simp
    moreover have "length (written TxCtl (n1 @ n2)) = 1"
      using n1(2) written_quiet[OF n2(2)] by simp
    ultimately show ?thesis using True
      by (intro exI[of _ "n1 @ n2"]) simp
  qed
qed

lemma exchange_frames:
  assumes "finalWorld (sendRpcAndReceive rt m p w0) = Some w'"
  shows "length (written TxCtl (since w0 w')) \<le> 2
     \<and> (length (written TxCtl (since w0 w')) = 2 \<longrightarrow>
          (\<exists>w4. firstAttempt rt m p w0 = Done () w4 \<and> expectedLength w4 = 0))
     \<and> (\<forall>w4. firstAttempt rt m p w0 = Done () w4 \<and> expectedLength w4 = 0
              \<and> fits (requestBytes rt (now w4) m p) \<longrightarrow>
          length (written TxCtl (since w0 w')) = 2)
     \<and> (\<forall>w4. firstAttempt rt m p w0 = Done () w4 \<and> expectedLength w4 \<noteq> 0 \<longrightarrow>
          length (written TxCtl (since w0 w')) = 1)"
proof -
  from assms have a: "finalWorld (andThen (firstAttempt rt m p w0) (\<lambda>_ w4.
      andThen (retryOnce rt m p [] w4) (\<lambda>_ w5.
      andThen (receive [] w5) (\<lambda>received w6.
      decodeResponse rt received (unsubscribeRxNotify w6))))) = Some w'"
    by (simp add: sendRpcAndReceive_def Let_def)
  from andThen_final[OF a] consider
    (early) e where "firstAttempt rt m p w0 = Thrown e w'"
    | (on) w4 where "firstAttempt rt m p w0 = Done () w4"
        "finalWorld (andThen (retryOnce rt m p [] w4) (\<lambda>_ w5.
           andThen (receive [] w5) (\<lambda>received w6.
           decodeResponse rt received (unsubscribeRxNotify w6)))) = Some w'"
    by auto
  then show ?thesis
  proof cases
    case early
    then have "finalWorld (firstAttempt rt m p w0) = Some w'" by (simp add: finalWorld_def)
    from firstAttempt_final[OF this] obtain new where
      "trace w' = trace w0 @ new" "length (written TxCtl new) \<le> 1"
      by blast
    with since_append[OF this(1)] early show ?thesis by simp
  next
    case on
    from firstAttempt_done[OF on(1)] obtain n1 where
      n1: "trace w4 = trace w0 @ n1" "length (written TxCtl n1) = 1"
      by blast
    from andThen_final[OF on(2)] obtain n2 n3 where
      n2: "length (written TxCtl n2) \<le> 1"
        "written TxCtl n2 \<noteq> [] \<longrightarrow> expectedLength w4 = 0"
        "expectedLength w4 = 0 \<and> fits (requestBytes rt (now w4) m p) \<longrightarrow> length (written TxCtl n2) = 1"
      and n3: "trace w' = trace w4 @ n2 @ n3" "writes n3 = []"
    proof (elim disjE exE conjE)
      fix e
      assume "retryOnce rt m p [] w4 = Thrown e w'"
      then have "finalWorld (retryOnce rt m p [] w4) = Some w'" by (simp add: finalWorld_def)
      from retryOnce_final[OF this] obtain n2 where
        "trace w' = trace w4 @ n2" "length (written TxCtl n2) \<le> 1"
        "written TxCtl n2 \<noteq> [] \<longrightarrow> expectedLength w4 = 0"
        "expectedLength w4 = 0 \<and> fits (requestBytes rt (now w4) m p) \<longrightarrow> length (written TxCtl n2) = 1"
        by auto
      then show ?thesis by (intro that[of n2 "[]"]) simp_all
    next
      fix x w5
      assume r: "retryOnce rt m p [] w4 = Done x w5"
        and t: "finalWorld (andThen (receive [] w5) (\<lambda>received w6.
           decodeResponse rt received (unsubscribeRxNotify w6))) = Some w'"
      from r have "finalWorld (retryOnce rt m p [] w4) = Some w5" by (simp add: finalWorld_def)
      from retryOnce_final[OF this] obtain n2 where
        a: "trace w5 = trace w4 @ n2" "length (written TxCtl n2) \<le> 1"
        "written TxCtl n2 \<noteq> [] \<longrightarrow> expectedLength w4 = 0"
        "expectedLength w4 = 0 \<and> fits (requestBytes rt (now w4) m p) \<longrightarrow> length (written TxCtl n2) = 1"
        by auto
      from tail_final[OF t] obtain n3 where
        b: "trace w' = trace w5 @ n3" "writes n3 = []"
        by blast
      from a b show ?thesis by (intro that[of n2 n3]) simp_all
    qed
    have "trace w' = trace w0 @ (n1 @ n2 @ n3)" using n1(1) n3(1) by simp
    from since_append[OF this] have
      c: "length (written TxCtl (since w0 w')) = 1 + length (written TxCtl n2)"
      using n1(2) written_quiet[OF n3(2)] by simp
    from c n2 on(1) show ?thesis by auto
  qed
qed

lemma retryOnce_branches:
  "(expectedLength w4 \<noteq> 0 \<longrightarrow> retryOnce rt m p [] w4 = Done () w4)
   \<and> (expectedLength w4 = 0 \<longrightarrow>
        retryOnce rt m p [] w4 = andThen (resendRequest rt m p w4) (\<lambda>_ w. retryPollLength 1 w))"
proof (intro conjI impI)
  assume "expectedLength w4 \<noteq> 0"
  then show "retryOnce rt m p [] w4 = Done () w4" by (simp add: retryOnce_def)
next
  assume z: "expectedLength w4 = 0"
  then have e: "w4\<lparr>expectedLength := 0\<rparr> = w4" by (cases w4) simp
  show "retryOnce rt m p [] w4 = andThen (resendRequest rt m p w4) (\<lambda>_ w. retryPollLength 1 w)"
    unfolding retryOnce_def e using z by simp
qed

lemma firstAttempt_sent:
  assumes "firstAttempt rt m p w0 = Done () w4"
  shows "\<exists>t1. t1 + 1000 \<le> now w4 \<and> concat (written DataCh (since w0 w4)) = requestBytes rt t1 m p
           \<and> length (written TxCtl (since w0 w4)) = 1"
proof -
  from firstAttempt_done[OF assms] obtain new t1 where
    a: "trace w4 = trace w0 @ new" "length (written TxCtl new) = 1"
       "concat (written DataCh new) = requestBytes rt t1 m p" "t1 + 1000 \<le> now w4"
    by blast
  from since_append[OF a(1)] a(2,3,4) show ?thesis
    by (intro exI[of _ t1]) simp
qed

lemma resend_sent:
  assumes "resendRequest rt m p w4 = Done () w5"
  shows "concat (written DataCh (since w4 w5)) = requestBytes rt (now w4) m p"
proof -
  from assms have "retransmit (requestBytes rt (now w4) m p) w4 = Done () w5"
    by (simp add: resendRequest_def)
  from retransmit_done[OF this] obtain new where
    "trace w5 = trace w4 @ new" "concat (written DataCh new) = requestBytes rt (now w4) m p"
    by blast
  with since_append[OF this(1)] show ?thesis by simp
qed

lemmas sample_poll = retryPollLength.simps retryWriteChunks.simps retransmit_def resendRequest_def

text \<open>
  C3, as the code has it. However an exchange ends, it has written at most two length
  frames to TX_CTL: the request is sent at most twice. It is sent twice only if the first
  attempt ran to the end of its polling and \<open>expectedLength\<close> was 0 at that moment,
  whatever it had been before (\<open>received\<close> is empty at that point in every run), and in
  that case it is sent twice whenever the rebuilt request fits the length frame; with
  \<open>expectedLength\<close> not 0 after the polling the retry block does nothing and one frame is
  written. The first request carries the clock of its building as id, the second the
  clock after the polling, at least a second later; both are the same object otherwise.
\<close>

theorem retry_at_most_once:
  "(finalWorld (sendRpcAndReceive rt m p w0) = Some w' \<longrightarrow>
      length (written TxCtl (since w0 w')) \<le> 2
      \<and> (length (written TxCtl (since w0 w')) = 2 \<longrightarrow>
           (\<exists>w4. firstAttempt rt m p w0 = Done () w4 \<and> expectedLength w4 = 0))
      \<and> (firstAttempt rt m p w0 = Done () w4 \<and> expectedLength w4 = 0
           \<and> fits (requestBytes rt (now w4) m p) \<longrightarrow>
           length (written TxCtl (since w0 w')) = 2))
   \<and> (finalWorld (sendRpcAndReceive rt m p v0) = Some v'
        \<and> firstAttempt rt m p v0 = Done () v4 \<and> expectedLength v4 \<noteq> 0 \<longrightarrow>
      length (written TxCtl (since v0 v')) = 1 \<and> retryOnce rt m p [] v4 = Done () v4)
   \<and> (firstAttempt rt m p w0 = Done () w4 \<longrightarrow>
      (\<exists>t1. t1 + 1000 \<le> now w4
          \<and> concat (written DataCh (since w0 w4)) = requestBytes rt t1 m p
          \<and> length (written TxCtl (since w0 w4)) = 1)
      \<and> (expectedLength w4 = 0 \<longrightarrow>
           retryOnce rt m p [] w4 =
             andThen (resendRequest rt m p w4) (\<lambda>_ w. retryPollLength 1 w)
           \<and> (resendRequest rt m p w4 = Done () w5 \<longrightarrow>
                concat (written DataCh (since w4 w5)) = requestBytes rt (now w4) m p)))
   \<and> requestBytes rt t m p =
       utf8_encode rt (JSON_stringify rt
         (Obj [(ascii ''id'', Num t), (ascii ''src'', Str (ascii ''user_1'')),
               (ascii ''method'', Str m),
               (ascii ''params'', if truthy p then p else Obj [])]))"
proof (intro conjI impI)
  assume f: "finalWorld (sendRpcAndReceive rt m p w0) = Some w'"
  from exchange_frames[OF f] show "length (written TxCtl (since w0 w')) \<le> 2"
    by simp
  {
    assume "length (written TxCtl (since w0 w')) = 2"
    with exchange_frames[OF f]
    show "\<exists>w4. firstAttempt rt m p w0 = Done () w4 \<and> expectedLength w4 = 0"
      by simp
  }
  {
    assume "firstAttempt rt m p w0 = Done () w4 \<and> expectedLength w4 = 0
           \<and> fits (requestBytes rt (now w4) m p)"
    with exchange_frames[OF f] show "length (written TxCtl (since w0 w')) = 2"
      by blast
  }
next
  assume a: "finalWorld (sendRpcAndReceive rt m p v0) = Some v'
        \<and> firstAttempt rt m p v0 = Done () v4 \<and> expectedLength v4 \<noteq> 0"
  then have f: "finalWorld (sendRpcAndReceive rt m p v0) = Some v'" by simp
  from exchange_frames[OF f] a show "length (written TxCtl (since v0 v')) = 1"
    by blast
  from a retryOnce_branches[of v4 rt m p] show "retryOnce rt m p [] v4 = Done () v4"
    by simp
next
  assume d: "firstAttempt rt m p w0 = Done () w4"
  from firstAttempt_sent[OF d]
  show "\<exists>t1. t1 + 1000 \<le> now w4
          \<and> concat (written DataCh (since w0 w4)) = requestBytes rt t1 m p
          \<and> length (written TxCtl (since w0 w4)) = 1" .
  assume z: "expectedLength w4 = 0"
  with retryOnce_branches[of w4 rt m p]
  show "retryOnce rt m p [] w4 = andThen (resendRequest rt m p w4) (\<lambda>_ w. retryPollLength 1 w)"
    by simp
  assume "resendRequest rt m p w4 = Done () w5"
  then show "concat (written DataCh (since w4 w5)) = requestBytes rt (now w4) m p"
    by (rule resend_sent)
next
  show "requestBytes rt t m p =
       utf8_encode rt (JSON_stringify rt
         (Obj [(ascii ''id'', Num t), (ascii ''src'', Str (ascii ''user_1'')),
               (ascii ''method'', Str m),
               (ascii ''params'', if truthy p then p else Obj [])]))"
    by (simp add: requestBytes_def requestObject_def Let_def)
qed

theorem retry_at_most_once_witness:
  "\<exists>w' w4 w5 v4.
      finalWorld (sendRpcAndReceive samplePlatform (ascii ''Shelly.GetStatus'') (Obj [])
        (startAt unanswered)) = Some w'
    \<and> firstAttempt samplePlatform (ascii ''Shelly.GetStatus'') (Obj []) (startAt unanswered) =
        Done () w4
    \<and> expectedLength w4 = 0
    \<and> fits (requestBytes samplePlatform (now w4) (ascii ''Shelly.GetStatus'') (Obj []))
    \<and> resendRequest samplePlatform (ascii ''Shelly.GetStatus'') (Obj []) w4 = Done () w5
    \<and> length (written TxCtl (since (startAt unanswered) w')) = 2
    \<and> concat (written DataCh (since w4 w5)) =
        requestBytes samplePlatform (now w4) (ascii ''Shelly.GetStatus'') (Obj [])
    \<and> finalWorld (sendRpcAndReceive samplePlatform (ascii ''Shelly.GetStatus'') (Obj [])
        (startAt garbled)) = Some garbledEnd
    \<and> firstAttempt samplePlatform (ascii ''Shelly.GetStatus'') (Obj []) (startAt garbled) =
        Done () v4
    \<and> expectedLength v4 \<noteq> 0
    \<and> length (written TxCtl (since (startAt garbled) garbledEnd)) = 1"
proof -
  let ?m = "ascii ''Shelly.GetStatus''"
  have "\<exists>w'. sendRpcAndReceive samplePlatform ?m (Obj []) (startAt unanswered) = Done (Obj []) w'"
    by (simp add: sample_run sample_poll unanswered_def)
  then obtain w' where
    a: "finalWorld (sendRpcAndReceive samplePlatform ?m (Obj []) (startAt unanswered)) = Some w'"
    by (auto simp: finalWorld_def)
  have "\<exists>w4. firstAttempt samplePlatform ?m (Obj []) (startAt unanswered) = Done () w4
      \<and> expectedLength w4 = 0 \<and> now w4 = 8549 \<and> naps w4 = [] \<and> listening w4
      \<and> replies w4 = [quiet, quiet, yields [0, 0, 0, 2], yields [0x7B, 0x7D]]"
    by (simp add: sample_run unanswered_def)
  then obtain w4 where
    b: "firstAttempt samplePlatform ?m (Obj []) (startAt unanswered) = Done () w4"
       "expectedLength w4 = 0"
    and w4: "now w4 = 8549" "naps w4 = []" "listening w4"
       "replies w4 = [quiet, quiet, yields [0, 0, 0, 2], yields [0x7B, 0x7D]]"
    by blast
  have c: "fits (requestBytes samplePlatform (now w4) ?m (Obj []))"
    by (simp add: fits_def requestBytes_def requestObject_def samplePlatform_def ascii_def)
  have "\<exists>w5. resendRequest samplePlatform ?m (Obj []) w4 = Done () w5"
    by (simp add: sample_run sample_poll w4 b(2))
  then obtain w5 where
    d: "resendRequest samplePlatform ?m (Obj []) w4 = Done () w5"
    by blast
  have e: "finalWorld (sendRpcAndReceive samplePlatform ?m (Obj []) (startAt garbled)) = Some garbledEnd"
    by (simp add: sample_run garbled_def garbledRead_def garbledEnd_def finalWorld_def)
  have "\<exists>v4. firstAttempt samplePlatform ?m (Obj []) (startAt garbled) = Done () v4
      \<and> expectedLength v4 \<noteq> 0"
    by (simp add: sample_run garbled_def)
  then obtain v4 where
    f: "firstAttempt samplePlatform ?m (Obj []) (startAt garbled) = Done () v4"
       "expectedLength v4 \<noteq> 0"
    by blast
  note inst = retry_at_most_once [of samplePlatform ?m "Obj []" "startAt unanswered" w' w4
      "startAt garbled" garbledEnd v4 w5]
  from inst a b c have two: "length (written TxCtl (since (startAt unanswered) w')) = 2"
    by blast
  from inst b d have bytes: "concat (written DataCh (since w4 w5)) =
        requestBytes samplePlatform (now w4) ?m (Obj [])"
    by blast
  from inst e f have one: "length (written TxCtl (since (startAt garbled) garbledEnd)) = 1"
    by blast
  from a b c d two bytes e f one show ?thesis
    by blast
qed

text \<open>
  The test is on the value \<open>expectedLength\<close> has when the polling ends, not on whether
  it was ever positive. On the script \<open>withdrawn\<close> the handler stores 5 while the length
  frame is written and 0 while the request is; the first attempt ends with 0 and the
  request is sent a second time.
\<close>

theorem retry_after_length_withdrawn:
  "flushChannels (startAt withdrawn) = Done () flushedFirst
   \<and> subscribeNotifications (flushedFirst\<lparr>expectedLength := 0\<rparr>) = Done () subscribed
   \<and> requestBytes samplePlatform (now subscribed) (ascii ''Shelly.GetStatus'') (Obj []) =
        [0x7B, 0x7D]
   \<and> writeWithResponse TxCtl [0, 0, 0, 2] subscribed = Some (Resolved None, announced)
   \<and> expectedLength announced = 5
   \<and> lengthAfter (firstAttempt samplePlatform (ascii ''Shelly.GetStatus'') (Obj [])
        (startAt withdrawn)) = Some 0
   \<and> framesSent (startAt withdrawn)
        (sendRpcAndReceive samplePlatform (ascii ''Shelly.GetStatus'') (Obj [])
          (startAt withdrawn)) = Some 2"
  (is "?F \<and> ?S \<and> ?B \<and> ?W \<and> ?E \<and> ?L \<and> ?N")
proof -
  have f: ?F
    by (simp add: sample_run withdrawn_def flushedFirst_def hears_def)
  have s: ?S
    by (simp add: sample_run withdrawn_def flushedFirst_def subscribed_def hears_def)
  have b: ?B
    by (simp add: sample_run)
  have w: ?W
    by (simp add: sample_run withdrawn_def subscribed_def announced_def hears_def)
  have e: ?E
    by (simp add: announced_def)
  have l: ?L
    by (simp add: sample_run withdrawn_def hears_def lengthAfter_def finalWorld_def)
  have n: ?N
    by (simp add: sample_run sample_poll withdrawn_def hears_def framesSent_def finalWorld_def
        since_def written_def)
  from f s b w e l n show ?thesis
    by simp
qed

section \<open>Decoding within the exchange\<close>

lemma traffic_andThen:
  assumes "\<And>x w. r = Done x w \<Longrightarrow> traffic w0 (k x w) = traffic w0 (k' x w)"
  shows "traffic w0 (andThen r k) = traffic w0 (andThen r k')"
  using assms by (cases r) (simp_all add: andThen_def traffic_def finalWorld_def)

lemma drop_two_console:
  "writes (drop n [(t, ConsoleError a), (u, ConsoleError b)]) = []"
  "reads (drop n [(t, ConsoleError a), (u, ConsoleError b)]) = []"
  "sleeps (drop n [(t, ConsoleError a), (u, ConsoleError b)]) = []"
proof -
  consider "n = 0" | "n = 1" | "2 \<le> n" by linarith
  then show "writes (drop n [(t, ConsoleError a), (u, ConsoleError b)]) = []"
    by cases simp_all
  consider "n = 0" | "n = 1" | "2 \<le> n" by linarith
  then show "reads (drop n [(t, ConsoleError a), (u, ConsoleError b)]) = []"
    by cases simp_all
  consider "n = 0" | "n = 1" | "2 \<le> n" by linarith
  then show "sleeps (drop n [(t, ConsoleError a), (u, ConsoleError b)]) = []"
    by cases simp_all
qed

lemma traffic_decode:
  "traffic w0 (decodeResponse rt rcv w) =
     Some (writes (since w0 w), reads (since w0 w), sleeps (since w0 w))"
  by (simp add: traffic_def decodeResponse_def Let_def finalWorld_def since_def drop_two_console
      split: sum.splits)

lemma phases_ignore_decoder:
  "firstAttempt (rt\<lparr>JSON_parse := pr, utf8_decode := dec\<rparr>) m p w = firstAttempt rt m p w"
  "retryOnce (rt\<lparr>JSON_parse := pr, utf8_decode := dec\<rparr>) m p rcv w = retryOnce rt m p rcv w"
  by (simp_all add: firstAttempt_def retryOnce_def sendRequest_def resendRequest_def
      requestBytes_def)

lemma traffic_ignores_decoder:
  "traffic w0 (sendRpcAndReceive (rt\<lparr>JSON_parse := pr, utf8_decode := dec\<rparr>) m p w0) =
   traffic w0 (sendRpcAndReceive rt m p w0)"
  unfolding sendRpcAndReceive_def Let_def phases_ignore_decoder
  by (intro traffic_andThen) (simp add: traffic_decode)

lemma decode_error_ends_exchange:
  assumes "sendRpcAndReceive rt m p w0 = Thrown e w'" "e = EmptyResponse \<or> e = ParseFailure msg"
  shows "\<exists>w4 w5 rcv w6.
           firstAttempt rt m p w0 = Done () w4 \<and> retryOnce rt m p [] w4 = Done () w5
         \<and> receive [] w5 = Done rcv w6
         \<and> decodeResponse rt rcv (unsubscribeRxNotify w6) = Thrown e w'
         \<and> writes (since w5 w') = []"
proof -
  from assms(2) have ne: "\<not> (e = Rejected \<or> e = RangeError)" by auto
  from assms(1) ne obtain w4 w5 rcv w6 where
    f: "firstAttempt rt m p w0 = Done () w4"
    and r: "retryOnce rt m p [] w4 = Done () w5"
    and c: "receive [] w5 = Done rcv w6"
    and d: "decodeResponse rt rcv (unsubscribeRxNotify w6) = Thrown e w'"
    unfolding sendRpcAndReceive_def Let_def
    by (auto dest!: andThen_Thrown dest: firstAttempt_throws retryOnce_throws
        receive_never_throws[THEN notE])
  from c d have "finalWorld (andThen (receive [] w5)
      (\<lambda>r w6. decodeResponse rt r (unsubscribeRxNotify w6))) = Some w'"
    by (simp add: andThen_def finalWorld_def)
  from tail_final[OF this] obtain new where "trace w' = trace w5 @ new" "writes new = []"
    by blast
  with since_append[OF this(1)] have "writes (since w5 w') = []" by simp
  with f r c d show ?thesis by blast
qed

text \<open>
  C7, as the code has it. Decoding throws the empty-response error exactly when the
  decoded text is blank (empty or white space only), throws the parse error exactly when
  the text is not blank and \<open>JSON.parse\<close> rejects it, and returns the parsed value
  otherwise. On a parse error the whole raw text goes to \<open>console.error\<close> before the
  throw; the error thrown carries the parser's message and nothing else. Decoding issues
  no read and no write. An exchange that ends in a decoding error has run its first
  attempt, its retry block, its read loop and one decoding, in this order, and has written
  nothing since the read loop began; and what an exchange writes, reads and sleeps is the
  same whatever decoder and parser the runtime has, so no outcome of the decoding makes
  the request go out again.
\<close>

theorem decoding_outcomes:
  "((\<exists>w'. decodeResponse rt received w = Thrown EmptyResponse w') \<longleftrightarrow>
       blank (utf8_decode rt received))
   \<and> ((\<exists>m w'. decodeResponse rt received w = Thrown (ParseFailure m) w') \<longleftrightarrow>
       \<not> blank (utf8_decode rt received) \<and> (\<exists>m. JSON_parse rt (utf8_decode rt received) = Inl m))
   \<and> (decodeResponse rt received w = Thrown (ParseFailure m) w' \<longrightarrow>
       JSON_parse rt (utf8_decode rt received) = Inl m
       \<and> (now w, ConsoleError (JSON_stringify rt (Str (utf8_decode rt received))))
            \<in> set (since w w'))
   \<and> (decodeResponse rt received w = Done v w' \<longleftrightarrow>
       \<not> blank (utf8_decode rt received) \<and> JSON_parse rt (utf8_decode rt received) = Inr v
       \<and> w' = w)
   \<and> decodeResponse rt received w \<noteq> Pending
   \<and> (finalWorld (decodeResponse rt received w) = Some w' \<longrightarrow>
       writes (since w w') = [] \<and> reads (since w w') = [])
   \<and> (sendRpcAndReceive rt method p w0 = Thrown e w1 \<and> (e = EmptyResponse \<or> e = ParseFailure m) \<longrightarrow>
       (\<exists>w4 w5 rcv w6.
           firstAttempt rt method p w0 = Done () w4 \<and> retryOnce rt method p [] w4 = Done () w5
         \<and> receive [] w5 = Done rcv w6
         \<and> decodeResponse rt rcv (unsubscribeRxNotify w6) = Thrown e w1
         \<and> writes (since w5 w1) = []))
   \<and> traffic w0 (sendRpcAndReceive (rt\<lparr>JSON_parse := pr, utf8_decode := dec\<rparr>) method p w0) =
       traffic w0 (sendRpcAndReceive rt method p w0)
   \<and> (blank s \<longleftrightarrow> (\<forall>c\<in>set s. isWhiteSpace c))"
proof (intro conjI impI)
  show "(\<exists>w'. decodeResponse rt received w = Thrown EmptyResponse w') \<longleftrightarrow>
       blank (utf8_decode rt received)"
    by (rule decode_empty)
  show "(\<exists>m w'. decodeResponse rt received w = Thrown (ParseFailure m) w') \<longleftrightarrow>
       \<not> blank (utf8_decode rt received) \<and> (\<exists>m. JSON_parse rt (utf8_decode rt received) = Inl m)"
    by (rule decode_invalid)
  show "decodeResponse rt received w = Done v w' \<longleftrightarrow>
       \<not> blank (utf8_decode rt received) \<and> JSON_parse rt (utf8_decode rt received) = Inr v
       \<and> w' = w"
    by (rule decode_ok)
  show "decodeResponse rt received w \<noteq> Pending"
    by (rule decode_settles)
  show "traffic w0 (sendRpcAndReceive (rt\<lparr>JSON_parse := pr, utf8_decode := dec\<rparr>) method p w0) =
       traffic w0 (sendRpcAndReceive rt method p w0)"
    by (rule traffic_ignores_decoder)
  show "blank s \<longleftrightarrow> (\<forall>c\<in>set s. isWhiteSpace c)"
    by (simp add: blank_def list_all_iff)
next
  assume "decodeResponse rt received w = Thrown (ParseFailure m) w'"
  from decode_invalid_surfaces[OF this]
  show "JSON_parse rt (utf8_decode rt received) = Inl m"
    and "(now w, ConsoleError (JSON_stringify rt (Str (utf8_decode rt received))))
            \<in> set (since w w')"
    by simp_all
next
  assume "finalWorld (decodeResponse rt received w) = Some w'"
  from decode_no_io[OF this]
  show "writes (since w w') = []" and "reads (since w w') = []"
    by simp_all
next
  assume "sendRpcAndReceive rt method p w0 = Thrown e w1 \<and> (e = EmptyResponse \<or> e = ParseFailure m)"
  then show "\<exists>w4 w5 rcv w6.
           firstAttempt rt method p w0 = Done () w4 \<and> retryOnce rt method p [] w4 = Done () w5
         \<and> receive [] w5 = Done rcv w6
         \<and> decodeResponse rt rcv (unsubscribeRxNotify w6) = Thrown e w1
         \<and> writes (since w5 w1) = []"
    using decode_error_ends_exchange[of rt "method" p w0 e w1 m] by simp
qed

theorem decoding_outcomes_witness:
  "decodeResponse samplePlatform [0x61, 0x62] garbledRead =
     Thrown (ParseFailure (ascii ''Unexpected token'')) garbledEnd
   \<and> sendRpcAndReceive samplePlatform (ascii ''Shelly.GetStatus'') (Obj []) (startAt garbled) =
     Thrown (ParseFailure (ascii ''Unexpected token'')) garbledEnd
   \<and> JSON_parse samplePlatform (utf8_decode samplePlatform [0x61, 0x62]) =
     Inl (ascii ''Unexpected token'')
   \<and> (now garbledRead,
       ConsoleError (JSON_stringify samplePlatform (Str (utf8_decode samplePlatform [0x61, 0x62]))))
        \<in> set (since garbledRead garbledEnd)
   \<and> writes (since garbledRead garbledEnd) = [] \<and> reads (since garbledRead garbledEnd) = []
   \<and> (\<exists>w4 w5 rcv w6.
         firstAttempt samplePlatform (ascii ''Shelly.GetStatus'') (Obj []) (startAt garbled) =
           Done () w4
       \<and> retryOnce samplePlatform (ascii ''Shelly.GetStatus'') (Obj []) [] w4 = Done () w5
       \<and> receive [] w5 = Done rcv w6
       \<and> decodeResponse samplePlatform rcv (unsubscribeRxNotify w6) =
           Thrown (ParseFailure (ascii ''Unexpected token'')) garbledEnd
       \<and> writes (since w5 garbledEnd) = [])
   \<and> sendRpcAndReceive lenient (ascii ''Shelly.GetStatus'') (Obj []) (startAt garbled) =
       Done Null garbledRead
   \<and> traffic (startAt garbled)
       (sendRpcAndReceive lenient (ascii ''Shelly.GetStatus'') (Obj []) (startAt garbled)) =
     traffic (startAt garbled)
       (sendRpcAndReceive samplePlatform (ascii ''Shelly.GetStatus'') (Obj []) (startAt garbled))"
  (is "?D \<and> ?X \<and> ?J \<and> ?C \<and> ?W \<and> ?R \<and> ?Q \<and> ?A \<and> ?T")
proof -
  have d: ?D
    by (simp add: sample_run garbledRead_def garbledEnd_def)
  have x: ?X
    by (simp add: sample_run garbled_def garbledRead_def garbledEnd_def)
  have a: ?A
    by (simp add: lenient_def sample_run garbled_def garbledRead_def)
  have f: "finalWorld (decodeResponse samplePlatform [0x61, 0x62] garbledRead) = Some garbledEnd"
    by (simp add: d finalWorld_def)
  note inst = decoding_outcomes [of samplePlatform "[0x61, 0x62]" garbledRead
      "ascii ''Unexpected token''" garbledEnd _ "ascii ''Shelly.GetStatus''" "Obj []"
      "startAt garbled" "ParseFailure (ascii ''Unexpected token'')" garbledEnd
      "map ucast" "\<lambda>s. Inr Null"]
  from inst d have j: ?J and c: ?C
    by simp_all
  from inst f have w: ?W and r: ?R
    by simp_all
  from inst x have q: ?Q
    by simp
  from inst have t: ?T
    unfolding lenient_def by blast
  from d x j c w r q a t show ?thesis
    by simp
qed

text \<open>
  The raw text is not in what the caller is given. The peer sends an opening bracket; the
  exchange throws the parse error with the parser's message, in which the text received
  does not occur; the text went to \<open>console.error\<close>.
\<close>

theorem parse_error_omits_raw_text:
  "sendRpcAndReceive terse (ascii ''Shelly.GetStatus'') (Obj []) (startAt truncated) =
     Thrown (ParseFailure (ascii ''Unexpected end of JSON input'')) truncatedEnd
   \<and> utf8_decode terse [0x5B] = [0x5B]
   \<and> \<not> occursIn [0x5B] (ascii ''Unexpected end of JSON input'')
   \<and> (1021, ConsoleError (JSON_stringify terse (Str [0x5B]))) \<in> set (trace truncatedEnd)"
  by (simp add: sample_run terse_def truncated_def truncatedEnd_def)

end
